theory Spec2Isabelle
  imports Main
begin

section \<open>The eventful mixin: data model\<close>

text \<open>
  The embedding follows the variant of \<^verbatim>\<open>eventful\<close> whose hooks take
  \<^verbatim>\<open>(object, action, payload)\<close> and \<^verbatim>\<open>(err, context)\<close> (the one the type
  declarations describe); the \<^verbatim>\<open>emit\<close> of the older variant kept beside it, which gives
  the error hook the error only, is modelled apart as \<open>emit_older\<close>. JavaScript values are a datatype; a function value carries
  its own code, so that invoking it can be computed:
  \<^item> \<open>User tag body ending\<close> is a function written by the application. The tag is its
    reference identity (two closures with the same body and different tags are different
    values). Its synchronous part performs the emitter calls of \<open>body\<close> in order and then
    returns or throws as \<open>ending\<close> says; an exception of a nested call leaves the body at
    once, as no \<^verbatim>\<open>try\<close> surrounds it.
  \<^item> \<open>Adapter h l\<close> is the arrow function \<^verbatim>\<open>(...args) => { off(); listener(...args); }\<close>
    that \<^verbatim>\<open>once\<close> creates; \<open>h\<close> is the handle bound to \<^verbatim>\<open>off\<close>. Each call of \<^verbatim>\<open>once\<close>
    makes a new function, which the fresh handle in the value stands for; an application
    does not write adapters itself.
  A returned promise is abstracted to how it settles later; what an asynchronous listener
  does after its first \<^verbatim>\<open>await\<close> is not modelled.
\<close>

type_synonym event = string

datatype jserror = TypeError string | Error string

datatype completion = Fulfils | Rejects jserror

datatype retval = Plain | Promise completion

datatype ending = Return retval | Throws jserror

datatype jsval = Undefined | Null | Num int | Str string | Fn closure
  and closure = User nat "action list" ending | Adapter nat closure
  and action =
      DoOn event jsval
    | DoOnce event jsval
    | DoOff event jsval
    | DoEmit event "jsval list"
    | DoEmitAsync event "jsval list"
    | DoHandle nat

text \<open>
  The payloads the trace hook receives and the context the error hook receives. The
  \<^verbatim>\<open>listeners\<close> of an emission payload is the set object itself; the model records the
  listeners it holds when the hook is called.
\<close>

datatype payload =
    Subscription event closure
  | Emission "closure list" event "jsval list"

datatype error_context = ErrorContext nat event closure

text \<open>
  The options of an instance. The hooks \<^verbatim>\<open>trace || globalOptions.trace\<close> and
  \<^verbatim>\<open>error || globalOptions.error\<close> are observers: whichever function is installed, the
  model records the arguments it is called with, in \<open>traced\<close> and \<open>errors\<close>, and the hook
  returns normally. \<open>object\<close> identifies the object the methods are attached to.
\<close>

record options =
  strict :: bool
  object :: nat

text \<open>
  The state closed over by the methods of one instance. A \<^verbatim>\<open>Set\<close> object is the list of
  its entries in insertion order, where a deleted entry leaves \<open>None\<close> behind, as the
  language's iteration over a set that changes under it requires; \<open>sets\<close> is the store of
  the \<^verbatim>\<open>Set\<close> objects by address and \<open>map_tbl\<close> is the \<^verbatim>\<open>Map\<close> from events to them.
  \<open>handles\<close> holds, for every function returned by \<^verbatim>\<open>on\<close>, its variable \<^verbatim>\<open>active\<close> and
  the event and listener it closes over. \<open>calls\<close> records every invocation of an
  application function.
\<close>

record emitter =
  map_tbl :: "event \<Rightarrow> nat option"
  sets :: "nat \<Rightarrow> closure option list"
  next_set :: nat
  handles :: "(bool \<times> event \<times> closure) list"
  traced :: "(nat \<times> string \<times> payload) list"
  errors :: "(jserror \<times> error_context) list"
  calls :: "(closure \<times> jsval list) list"

subsection \<open>Set objects\<close>

definition set_size :: "closure option list \<Rightarrow> nat" where
  "set_size s = length (filter (\<lambda>x. x \<noteq> None) s)"

definition set_values :: "closure option list \<Rightarrow> closure list" where
  "set_values s = List.map_filter (\<lambda>x. x) s"

definition set_add :: "closure option list \<Rightarrow> closure \<Rightarrow> closure option list" where
  "set_add s l = (if Some l \<in> set s then s else s @ [Some l])"

definition set_delete :: "closure option list \<Rightarrow> closure \<Rightarrow> closure option list" where
  "set_delete s l = map (\<lambda>x. if x = Some l then None else x) s"

text \<open>\<^verbatim>\<open>const emptySet = new Set()\<close>: the first set allocated, never added to.\<close>

definition emptySet :: nat where
  "emptySet = 0"

definition initial :: emitter where
  "initial = \<lparr> map_tbl = (\<lambda>_. None), sets = (\<lambda>_. []), next_set = 1, handles = [],
               traced = [], errors = [], calls = [] \<rparr>"

subsection \<open>Guards and hooks\<close>

definition isFunction :: "jsval \<Rightarrow> bool" where
  "isFunction v = (case v of Fn _ \<Rightarrow> True | _ \<Rightarrow> False)"

text \<open>\<^verbatim>\<open>functionTypeGuard\<close> throws unless \<open>isFunction\<close> holds; the model hands the function on.\<close>

definition functionTypeGuard :: "jsval \<Rightarrow> jserror + closure" where
  "functionTypeGuard v = (case v of Fn l \<Rightarrow> Inr l | _ \<Rightarrow> Inl (TypeError ''Expect a function.''))"

definition trace :: "options \<Rightarrow> string \<Rightarrow> payload \<Rightarrow> emitter \<Rightarrow> emitter" where
  "trace opts name p st = st\<lparr> traced := traced st @ [(object opts, name, p)] \<rparr>"

definition error :: "jserror \<Rightarrow> error_context \<Rightarrow> emitter \<Rightarrow> emitter" where
  "error err ctx st = st\<lparr> errors := errors st @ [(err, ctx)] \<rparr>"

subsection \<open>The registry\<close>

definition add :: "event \<Rightarrow> closure \<Rightarrow> emitter \<Rightarrow> emitter" where
  "add ev l st =
     (case map_tbl st ev of
        None \<Rightarrow>
          st\<lparr> sets := (sets st)(next_set st := set_add [] l),
              map_tbl := (map_tbl st)(ev := Some (next_set st)),
              next_set := Suc (next_set st) \<rparr>
      | Some a \<Rightarrow> st\<lparr> sets := (sets st)(a := set_add (sets st a) l) \<rparr>)"

definition remove :: "event \<Rightarrow> closure \<Rightarrow> emitter \<Rightarrow> bool \<times> emitter" where
  "remove ev l st =
     (case map_tbl st ev of
        None \<Rightarrow> (False, st)
      | Some a \<Rightarrow>
          (let deleted = (Some l \<in> set (sets st a));
               st1 = st\<lparr> sets := (sets st)(a := set_delete (sets st a) l) \<rparr>;
               st2 = (if set_size (sets st1 a) = 0
                      then st1\<lparr> map_tbl := (map_tbl st1)(ev := None) \<rparr> else st1)
           in (deleted, st2)))"

definition getListeners :: "emitter \<Rightarrow> event \<Rightarrow> nat" where
  "getListeners st ev = (case map_tbl st ev of Some a \<Rightarrow> a | None \<Rightarrow> emptySet)"

text \<open>The function returned by \<^verbatim>\<open>on\<close>, called: \<open>h\<close> is its index in \<open>handles\<close>.\<close>

definition unsubscribe :: "nat \<Rightarrow> emitter \<Rightarrow> bool \<times> emitter" where
  "unsubscribe h st =
     (if h < length (handles st) then
        (case handles st ! h of
           (active, ev, l) \<Rightarrow>
             if \<not> active then (False, st)
             else remove ev l (st\<lparr> handles := (handles st)[h := (False, ev, l)] \<rparr>))
      else (False, st))"

definition on :: "options \<Rightarrow> event \<Rightarrow> jsval \<Rightarrow> emitter \<Rightarrow> (jserror + nat) \<times> emitter" where
  "on opts ev v st =
     (case functionTypeGuard v of
        Inl err \<Rightarrow> (Inl err, st)
      | Inr l \<Rightarrow>
          (let st1 = trace opts ''on'' (Subscription ev l) st;
               st2 = add ev l st1
           in (Inr (length (handles st2)), st2\<lparr> handles := handles st2 @ [(True, ev, l)] \<rparr>)))"

definition once :: "options \<Rightarrow> event \<Rightarrow> jsval \<Rightarrow> emitter \<Rightarrow> (jserror + nat) \<times> emitter" where
  "once opts ev v st =
     (case functionTypeGuard v of
        Inl err \<Rightarrow> (Inl err, st)
      | Inr l \<Rightarrow> on opts ev (Fn (Adapter (length (handles st)) l)) st)"

definition has :: "emitter \<Rightarrow> event \<Rightarrow> bool" where
  "has st ev = (case map_tbl st ev of None \<Rightarrow> False | Some a \<Rightarrow> set_size (sets st a) > 0)"

definition off :: "options \<Rightarrow> event \<Rightarrow> jsval \<Rightarrow> emitter \<Rightarrow> (jserror + bool) \<times> emitter" where
  "off opts ev v st =
     (case functionTypeGuard v of
        Inl err \<Rightarrow> (Inl err, st)
      | Inr l \<Rightarrow>
          (case remove ev l (trace opts ''off'' (Subscription ev l) st) of
             (r, st') \<Rightarrow> (Inr r, st')))"

subsection \<open>Invoking listeners and emitting\<close>

text \<open>
  What \<^verbatim>\<open>await Promise.all(calls)\<close> (strict) or \<^verbatim>\<open>await Promise.allSettled(calls)\<close>
  makes of the promises of the listeners: the promise of \<^verbatim>\<open>emitAsync\<close> fulfils, or rejects
  with the reason of whichever of the listed rejections happens first.
\<close>

datatype async_result = Resolves | RejectsWithOneOf "jserror list"

fun reasons :: "completion list \<Rightarrow> jserror list" where
  "reasons [] = []"
| "reasons (Fulfils # cs) = reasons cs"
| "reasons (Rejects e # cs) = e # reasons cs"

definition awaited :: "bool \<Rightarrow> completion list \<Rightarrow> async_result" where
  "awaited str cs =
     (if str \<and> reasons cs \<noteq> [] then RejectsWithOneOf (reasons cs) else Resolves)"

text \<open>
  The functions below call each other, and a listener may emit again, forever; the first
  argument bounds the depth of calls and the number of loop iterations, and \<open>None\<close> says
  that the bound was reached. The result of a call is \<open>Inl\<close> of the exception thrown or
  \<open>Inr\<close> of the value returned, with the state it leaves.
  \<^item> \<open>invoke\<close> calls a function value with arguments.
  \<^item> \<open>run_body\<close> performs the emitter calls of a function body.
  \<^item> \<open>emit\<close> and \<open>emit_loop\<close> are \<^verbatim>\<open>emit\<close> and its \<^verbatim>\<open>for (const listener of listeners)\<close>,
    which reads the set object \<open>a\<close> at position \<open>i\<close> as it is at that moment.
  \<^item> \<open>emitAsync\<close> and \<open>async_calls\<close> are \<^verbatim>\<open>emitAsync\<close> and the \<^verbatim>\<open>map\<close> over
    \<^verbatim>\<open>Array.from(listeners)\<close>, a copy taken before the first listener runs.
\<close>

function invoke :: "nat \<Rightarrow> options \<Rightarrow> closure \<Rightarrow> jsval list \<Rightarrow> emitter
      \<Rightarrow> ((jserror + retval) \<times> emitter) option"
  and run_body :: "nat \<Rightarrow> options \<Rightarrow> action list \<Rightarrow> emitter
      \<Rightarrow> ((jserror + unit) \<times> emitter) option"
  and emit :: "nat \<Rightarrow> options \<Rightarrow> event \<Rightarrow> jsval list \<Rightarrow> emitter
      \<Rightarrow> ((jserror + unit) \<times> emitter) option"
  and emit_loop :: "nat \<Rightarrow> options \<Rightarrow> event \<Rightarrow> jsval list \<Rightarrow> nat \<Rightarrow> nat \<Rightarrow> emitter
      \<Rightarrow> ((jserror + unit) \<times> emitter) option"
  and emitAsync :: "nat \<Rightarrow> options \<Rightarrow> event \<Rightarrow> jsval list \<Rightarrow> emitter
      \<Rightarrow> (async_result \<times> emitter) option"
  and async_calls :: "nat \<Rightarrow> options \<Rightarrow> event \<Rightarrow> jsval list \<Rightarrow> closure list \<Rightarrow> emitter
      \<Rightarrow> (completion list \<times> emitter) option"
where
  "invoke 0 opts l args st = None"
| "invoke (Suc n) opts (User tag body fin) args st =
     (case run_body n opts body (st\<lparr> calls := calls st @ [(User tag body fin, args)] \<rparr>) of
        None \<Rightarrow> None
      | Some (Inl err, st1) \<Rightarrow> Some (Inl err, st1)
      | Some (Inr _, st1) \<Rightarrow>
          Some (case fin of Return r \<Rightarrow> Inr r | Throws err \<Rightarrow> Inl err, st1))"
| "invoke (Suc n) opts (Adapter h l) args st =
     (case invoke n opts l args (snd (unsubscribe h st)) of
        None \<Rightarrow> None
      | Some (Inl err, st1) \<Rightarrow> Some (Inl err, st1)
      | Some (Inr _, st1) \<Rightarrow> Some (Inr Plain, st1))"
| "run_body n opts [] st = Some (Inr (), st)"
| "run_body n opts (act # as) st =
     (case act of
        DoOn ev v \<Rightarrow>
          (case on opts ev v st of
             (Inl err, st1) \<Rightarrow> Some (Inl err, st1)
           | (Inr _, st1) \<Rightarrow> run_body n opts as st1)
      | DoOnce ev v \<Rightarrow>
          (case once opts ev v st of
             (Inl err, st1) \<Rightarrow> Some (Inl err, st1)
           | (Inr _, st1) \<Rightarrow> run_body n opts as st1)
      | DoOff ev v \<Rightarrow>
          (case off opts ev v st of
             (Inl err, st1) \<Rightarrow> Some (Inl err, st1)
           | (Inr _, st1) \<Rightarrow> run_body n opts as st1)
      | DoHandle h \<Rightarrow> run_body n opts as (snd (unsubscribe h st))
      | DoEmit ev args \<Rightarrow>
          (case emit n opts ev args st of
             None \<Rightarrow> None
           | Some (Inl err, st1) \<Rightarrow> Some (Inl err, st1)
           | Some (Inr _, st1) \<Rightarrow> run_body n opts as st1)
      | DoEmitAsync ev args \<Rightarrow>
          (case emitAsync n opts ev args st of
             None \<Rightarrow> None
           | Some (_, st1) \<Rightarrow> run_body n opts as st1))"
| "emit n opts ev args st =
     (let a = getListeners st ev;
          st1 = trace opts ''emit'' (Emission (set_values (sets st a)) ev args) st
      in if set_size (sets st1 a) = 0 then Some (Inr (), st1)
         else emit_loop n opts ev args a 0 st1)"
| "emit_loop 0 opts ev args a i st = None"
| "emit_loop (Suc n) opts ev args a i st =
     (if length (sets st a) \<le> i then Some (Inr (), st)
      else
        (case sets st a ! i of
           None \<Rightarrow> emit_loop n opts ev args a (Suc i) st
         | Some l \<Rightarrow>
             (case invoke n opts l args st of
                None \<Rightarrow> None
              | Some (Inr _, st1) \<Rightarrow> emit_loop n opts ev args a (Suc i) st1
              | Some (Inl err, st1) \<Rightarrow>
                  (let st2 = error err (ErrorContext (object opts) ev l) st1
                   in if strict opts then Some (Inl err, st2)
                      else emit_loop n opts ev args a (Suc i) st2))))"
| "emitAsync n opts ev args st =
     (let a = getListeners st ev;
          st1 = trace opts ''emitAsync'' (Emission (set_values (sets st a)) ev args) st
      in if set_size (sets st1 a) = 0 then Some (Resolves, st1)
         else
           (case async_calls n opts ev args (set_values (sets st1 a)) st1 of
              None \<Rightarrow> None
            | Some (cs, st2) \<Rightarrow> Some (awaited (strict opts) cs, st2)))"
| "async_calls n opts ev args [] st = Some ([], st)"
| "async_calls n opts ev args (l # ls) st =
     (case invoke n opts l args st of
        None \<Rightarrow> None
      | Some (Inr r, st1) \<Rightarrow>
          (case async_calls n opts ev args ls st1 of
             None \<Rightarrow> None
           | Some (cs, st2) \<Rightarrow>
               Some ((case r of Plain \<Rightarrow> Fulfils | Promise c \<Rightarrow> c) # cs, st2))
      | Some (Inl err, st1) \<Rightarrow>
          (case async_calls n opts ev args ls
                  (error err (ErrorContext (object opts) ev l) st1) of
             None \<Rightarrow> None
           | Some (cs, st2) \<Rightarrow> Some (Rejects err # cs, st2)))"
  by pat_completeness auto
termination
  by (relation "measures
        [\<lambda>x. case x of
            Inl (Inl (n, _)) \<Rightarrow> n
          | Inl (Inr (Inl (n, _))) \<Rightarrow> n
          | Inl (Inr (Inr (n, _))) \<Rightarrow> n
          | Inr (Inl (n, _)) \<Rightarrow> n
          | Inr (Inr (Inl (n, _))) \<Rightarrow> n
          | Inr (Inr (Inr (n, _))) \<Rightarrow> n,
         \<lambda>x. case x of
            Inl (Inl _) \<Rightarrow> 0
          | Inl (Inr (Inl _)) \<Rightarrow> 3
          | Inl (Inr (Inr _)) \<Rightarrow> 2
          | Inr (Inl _) \<Rightarrow> 1
          | Inr (Inr (Inl _)) \<Rightarrow> 2
          | Inr (Inr (Inr _)) \<Rightarrow> 1,
         \<lambda>x. case x of
            Inl (Inr (Inl (_, _, as, _))) \<Rightarrow> length as
          | Inr (Inr (Inr (_, _, _, _, ls, _))) \<Rightarrow> length ls
          | _ \<Rightarrow> 0]") auto

text \<open>
  A program of the application: the calls it makes on the instance, one after the other.
  It catches what a call throws and goes on with the next call.
\<close>

fun client :: "nat \<Rightarrow> options \<Rightarrow> action list \<Rightarrow> emitter \<Rightarrow> emitter option" where
  "client n opts [] st = Some st"
| "client n opts (act # as) st =
     (case run_body n opts [act] st of
        None \<Rightarrow> None
      | Some (_, st1) \<Rightarrow> client n opts as st1)"

subsection \<open>Attaching the methods to an object\<close>

text \<open>
  The first argument of \<^verbatim>\<open>eventful\<close>. An object or a function is the table of the
  properties that \<^verbatim>\<open>in\<close> finds on it, taken to be ordinary configurable properties of
  an extensible object, so that \<^verbatim>\<open>Object.defineProperties\<close> itself does not throw.
\<close>

datatype capability = CapOn | CapOnce | CapOff | CapEmit | CapEmitAsync | CapHas

datatype property = Existing jsval | Attached capability

datatype target =
    NoArgument
  | NullArgument
  | Primitive
  | ObjectArgument "string \<Rightarrow> property option"
  | FunctionArgument "string \<Rightarrow> property option"

definition properties :: "target \<Rightarrow> (string \<Rightarrow> property option) option" where
  "properties t =
     (case t of
        NoArgument \<Rightarrow> Some (\<lambda>_. None)
      | NullArgument \<Rightarrow> None
      | Primitive \<Rightarrow> None
      | ObjectArgument ps \<Rightarrow> Some ps
      | FunctionArgument ps \<Rightarrow> Some ps)"

definition with_properties :: "target \<Rightarrow> (string \<Rightarrow> property option) \<Rightarrow> target" where
  "with_properties t ps = (case t of FunctionArgument _ \<Rightarrow> FunctionArgument ps | _ \<Rightarrow> ObjectArgument ps)"

definition checked_methods :: "string list" where
  "checked_methods = [''on'', ''once'', ''off'', ''emit'', ''has'']"

definition defineProperties :: "(string \<Rightarrow> property option) \<Rightarrow> (string \<Rightarrow> property option)" where
  "defineProperties ps =
     ps(''on'' := Some (Attached CapOn),
        ''once'' := Some (Attached CapOnce),
        ''off'' := Some (Attached CapOff),
        ''emit'' := Some (Attached CapEmit),
        ''emitAsync'' := Some (Attached CapEmitAsync),
        ''has'' := Some (Attached CapHas))"

definition already_exists :: "string \<Rightarrow> jserror" where
  "already_exists m = Error (''Method '' @ [CHR 0x22] @ m @ [CHR 0x22] @ '' already exists.'')"

definition eventful :: "target \<Rightarrow> jserror + (target \<times> emitter)" where
  "eventful t =
     (case properties t of
        None \<Rightarrow> Inl (TypeError ''Expect an object or a function.'')
      | Some ps \<Rightarrow>
          (case find (\<lambda>m. ps m \<noteq> None) checked_methods of
             Some m \<Rightarrow> Inl (already_exists m)
           | None \<Rightarrow> Inr (with_properties t (defineProperties ps), initial)))"

subsection \<open>The emit of the older variant\<close>

text \<open>
  The older \<^verbatim>\<open>emit\<close> reads the set from the map itself, calls the trace hook with the tag,
  the set (or an empty array) and the object, event and arguments, returns if there is no
  set or an empty one, and otherwise runs the same loop over the set, but calls the error
  hook as \<^verbatim>\<open>(error || eventful.error)(err)\<close>, with the error alone. Its \<^verbatim>\<open>add\<close> is the one
  above. The state is the state above together with the argument lists the error hook of
  this variant has been called with. What a listener does when it is called is a
  parameter: \<open>call l args\<close> gives the exception or the value and the state that the call
  leaves, or \<open>None\<close> if it does not return; the first argument bounds the iterations of the
  loop.
\<close>

datatype hook_argument = ErrorArgument jserror | ContextArgument error_context

type_synonym older = "emitter \<times> hook_argument list list"

fun emit_older_loop :: "nat \<Rightarrow> (closure \<Rightarrow> jsval list \<Rightarrow> older \<Rightarrow> ((jserror + retval) \<times> older) option)
      \<Rightarrow> options \<Rightarrow> jsval list \<Rightarrow> nat \<Rightarrow> nat \<Rightarrow> older \<Rightarrow> ((jserror + unit) \<times> older) option"
where
  "emit_older_loop 0 call opts args a i s = None"
| "emit_older_loop (Suc n) call opts args a i s =
     (if length (sets (fst s) a) \<le> i then Some (Inr (), s)
      else
        (case sets (fst s) a ! i of
           None \<Rightarrow> emit_older_loop n call opts args a (Suc i) s
         | Some fn \<Rightarrow>
             (case call fn args s of
                None \<Rightarrow> None
              | Some (Inr _, s1) \<Rightarrow> emit_older_loop n call opts args a (Suc i) s1
              | Some (Inl err, s1) \<Rightarrow>
                  (let s2 = (fst s1, snd s1 @ [[ErrorArgument err]])
                   in if strict opts then Some (Inl err, s2)
                      else emit_older_loop n call opts args a (Suc i) s2))))"

definition emit_older :: "nat \<Rightarrow> (closure \<Rightarrow> jsval list \<Rightarrow> older \<Rightarrow> ((jserror + retval) \<times> older) option)
      \<Rightarrow> options \<Rightarrow> event \<Rightarrow> jsval list \<Rightarrow> older \<Rightarrow> ((jserror + unit) \<times> older) option"
where
  "emit_older n call opts ev args s =
     (let found = map_tbl (fst s) ev;
          held = (case found of None \<Rightarrow> [] | Some a \<Rightarrow> set_values (sets (fst s) a));
          s1 = ((fst s)\<lparr> traced := traced (fst s) @ [(object opts, ''emit'', Emission held ev args)] \<rparr>,
                snd s)
      in case found of
           None \<Rightarrow> Some (Inr (), s1)
         | Some a \<Rightarrow>
             if set_size (sets (fst s1) a) = 0 then Some (Inr (), s1)
             else emit_older_loop n call opts args a 0 s1)"

text \<open>A listener that records its call and throws \<open>err\<close>, as \<^verbatim>\<open>() => { throw err; }\<close> does.\<close>

definition thrower :: "jserror \<Rightarrow> closure \<Rightarrow> jsval list \<Rightarrow> older \<Rightarrow> ((jserror + retval) \<times> older) option"
where
  "thrower err l args s =
     Some (Inl err, ((fst s)\<lparr> calls := calls (fst s) @ [(l, args)] \<rparr>, snd s))"

subsection \<open>Notions used to state the properties\<close>

text \<open>The listeners of an event, in the order \<^verbatim>\<open>emit\<close> meets them.\<close>

definition listeners :: "emitter \<Rightarrow> event \<Rightarrow> closure list" where
  "listeners st ev = set_values (sets st (getListeners st ev))"

text \<open>
  The shape of the store that the methods maintain: the shared empty set is empty, every
  set the map holds is allocated, has a listener and belongs to one event only, and no set
  holds a listener twice.
\<close>

definition registry_ok :: "emitter \<Rightarrow> bool" where
  "registry_ok st \<longleftrightarrow>
     emptySet < next_set st \<and>
     sets st emptySet = [] \<and>
     (\<forall>ev a. map_tbl st ev = Some a \<longrightarrow> a < next_set st \<and> 0 < set_size (sets st a)) \<and>
     (\<forall>ev ev' a. map_tbl st ev = Some a \<longrightarrow> map_tbl st ev' = Some a \<longrightarrow> ev = ev') \<and>
     (\<forall>a. distinct (set_values (sets st a)))"

definition registry_kept :: "emitter \<Rightarrow> emitter \<Rightarrow> bool" where
  "registry_kept st st' \<longleftrightarrow> (registry_ok st \<longrightarrow> registry_ok st')"

text \<open>
  Handles are never forgotten, keep the event and listener they close over, and an
  inactive one stays inactive.
\<close>

definition handles_kept :: "emitter \<Rightarrow> emitter \<Rightarrow> bool" where
  "handles_kept st st' \<longleftrightarrow>
     length (handles st) \<le> length (handles st') \<and>
     (\<forall>h < length (handles st).
        snd (handles st' ! h) = snd (handles st ! h) \<and>
        (fst (handles st' ! h) \<longrightarrow> fst (handles st ! h)))"

text \<open>
  A listener that does not call back into the emitter, and the error it throws, if any.
\<close>

fun inert :: "closure \<Rightarrow> bool" where
  "inert (User tag body fin) = (body = [])"
| "inert (Adapter h l) = False"

fun throwing :: "closure \<Rightarrow> jserror option" where
  "throwing (User tag body (Throws err)) = Some err"
| "throwing (User tag body (Return r)) = None"
| "throwing (Adapter h l) = throwing l"

text \<open>
  The specification of a synchronous emission to listeners \<open>ls\<close>, in its own words: who
  is invoked (every listener in order; under \<open>strict\<close>, none after the first that
  throws), what the error hook is told, and what the caller gets.
\<close>

fun deliveries :: "bool \<Rightarrow> closure list \<Rightarrow> closure list" where
  "deliveries str [] = []"
| "deliveries str (l # ls) =
     l # (if str \<and> throwing l \<noteq> None then [] else deliveries str ls)"

fun reports :: "nat \<Rightarrow> event \<Rightarrow> closure list \<Rightarrow> (jserror \<times> error_context) list" where
  "reports obj ev [] = []"
| "reports obj ev (l # ls) =
     (case throwing l of
        None \<Rightarrow> reports obj ev ls
      | Some err \<Rightarrow> (err, ErrorContext obj ev l) # reports obj ev ls)"

fun outcome :: "bool \<Rightarrow> closure list \<Rightarrow> jserror + unit" where
  "outcome str [] = Inr ()"
| "outcome str (l # ls) =
     (case throwing l of
        None \<Rightarrow> outcome str ls
      | Some err \<Rightarrow> if str then Inl err else outcome str ls)"

text \<open>
  How the promise made for a listener that does not call back settles: rejected at once
  if the listener throws, as the returned promise does if it returns one, and fulfilled
  otherwise.
\<close>

fun settles :: "closure \<Rightarrow> completion" where
  "settles (User tag body (Throws err)) = Rejects err"
| "settles (User tag body (Return Plain)) = Fulfils"
| "settles (User tag body (Return (Promise c))) = c"
| "settles (Adapter h l) = (case throwing l of None \<Rightarrow> Fulfils | Some err \<Rightarrow> Rejects err)"

section \<open>Properties\<close>

declare emit.simps [simp del] emitAsync.simps [simp del]

subsection \<open>A rule for properties of every run\<close>

text \<open>
  A reflexive and transitive relation between states that every elementary operation
  respects holds between the state before and the state after any call, however the
  listeners call back.
\<close>

lemma steps_rel:
  assumes refl: "\<And>st. R st st"
    and trans: "\<And>a b c. R a b \<Longrightarrow> R b c \<Longrightarrow> R a c"
    and p_on: "\<And>opts ev v st. R st (snd (on opts ev v st))"
    and p_off: "\<And>opts ev v st. R st (snd (off opts ev v st))"
    and p_unsub: "\<And>h st. R st (snd (unsubscribe h st))"
    and p_trace: "\<And>opts name p st. R st (trace opts name p st)"
    and p_error: "\<And>err ctx st. R st (error err ctx st)"
    and p_call: "\<And>c st. R st (st\<lparr> calls := calls st @ [c] \<rparr>)"
  shows "invoke n opts l args st = Some (r1, st') \<Longrightarrow> R st st'"
    and "run_body n opts as st = Some (r2, st') \<Longrightarrow> R st st'"
    and "emit n opts ev args st = Some (r3, st') \<Longrightarrow> R st st'"
    and "emit_loop n opts ev args a i st = Some (r4, st') \<Longrightarrow> R st st'"
    and "emitAsync n opts ev args st = Some (r5, st') \<Longrightarrow> R st st'"
    and "async_calls n opts ev args ls st = Some (r6, st') \<Longrightarrow> R st st'"
proof -
  have p_once: "\<And>opts ev v st. R st (snd (once opts ev v st))"
    by (simp add: once_def refl p_on split: sum.splits)
  have t_on: "\<And>opts ev v st x b c. on opts ev v st = (x, b) \<Longrightarrow> R b c \<Longrightarrow> R st c"
    using trans p_on by (metis snd_conv)
  have t_once: "\<And>opts ev v st x b c. once opts ev v st = (x, b) \<Longrightarrow> R b c \<Longrightarrow> R st c"
    using trans p_once by (metis snd_conv)
  have t_off: "\<And>opts ev v st x b c. off opts ev v st = (x, b) \<Longrightarrow> R b c \<Longrightarrow> R st c"
    using trans p_off by (metis snd_conv)
  have e_on: "\<And>opts ev v st x b. on opts ev v st = (x, b) \<Longrightarrow> R st b"
    using p_on by (metis snd_conv)
  have e_once: "\<And>opts ev v st x b. once opts ev v st = (x, b) \<Longrightarrow> R st b"
    using p_once by (metis snd_conv)
  have e_off: "\<And>opts ev v st x b. off opts ev v st = (x, b) \<Longrightarrow> R st b"
    using p_off by (metis snd_conv)
  show "invoke n opts l args st = Some (r1, st') \<Longrightarrow> R st st'"
    and "run_body n opts as st = Some (r2, st') \<Longrightarrow> R st st'"
    and "emit n opts ev args st = Some (r3, st') \<Longrightarrow> R st st'"
    and "emit_loop n opts ev args a i st = Some (r4, st') \<Longrightarrow> R st st'"
    and "emitAsync n opts ev args st = Some (r5, st') \<Longrightarrow> R st st'"
    and "async_calls n opts ev args ls st = Some (r6, st') \<Longrightarrow> R st st'"
proof (induction n opts l args st and n opts as st and n opts ev args st
         and n opts ev args a i st and n opts ev args st and n opts ev args ls st
       arbitrary: r1 st' and r2 st' and r3 st' and r4 st' and r5 st' and r6 st'
       rule: invoke_run_body_emit_emit_loop_emitAsync_async_calls.induct)
  case (1 opts l args st)
  then show ?case by simp
next
  case (2 n opts tag body fin args st)
  then show ?case
    by (auto split: option.splits sum.splits prod.splits intro: trans [OF p_call])
next
  case (3 n opts h l args st)
  then show ?case
    by (auto split: option.splits sum.splits prod.splits intro: trans [OF p_unsub])
next
  case (4 n opts st)
  then show ?case by (simp add: refl)
next
  case (5 n opts act as st)
  show ?case
  proof (cases act)
    case (DoOn ev v)
    with 5 show ?thesis
      by (auto split: prod.splits sum.splits intro: e_on t_on)
  next
    case (DoOnce ev v)
    with 5 show ?thesis
      by (auto split: prod.splits sum.splits intro: e_once t_once)
  next
    case (DoOff ev v)
    with 5 show ?thesis
      by (auto split: prod.splits sum.splits intro: e_off t_off)
  next
    case (DoEmit ev args)
    show ?thesis
    proof (cases "emit n opts ev args st")
      case None
      with "5.prems" DoEmit show ?thesis by simp
    next
      case (Some p)
      obtain r s where p: "p = (r, s)" by (cases p)
      have first: "R st s"
        using "5.IH"(4) [OF DoEmit] Some p by simp
      show ?thesis
      proof (cases r)
        case (Inl err)
        with "5.prems" DoEmit Some p first show ?thesis by simp
      next
        case (Inr u)
        with "5.prems" DoEmit Some p have "run_body n opts as s = Some (r2, st')"
          by simp
        with "5.IH"(5) [OF DoEmit Some, of r s] p Inr have "R s st'" by simp
        with first show ?thesis by (rule trans)
      qed
    qed
  next
    case (DoEmitAsync ev args)
    show ?thesis
    proof (cases "emitAsync n opts ev args st")
      case None
      with "5.prems" DoEmitAsync show ?thesis by simp
    next
      case (Some p)
      obtain r s where p: "p = (r, s)" by (cases p)
      have first: "R st s"
        using "5.IH"(6) [OF DoEmitAsync] Some p by simp
      from "5.prems" DoEmitAsync Some p have "run_body n opts as s = Some (r2, st')"
        by simp
      with "5.IH"(7) [OF DoEmitAsync Some, of r s] p have "R s st'" by simp
      with first show ?thesis by (rule trans)
    qed
  next
    case (DoHandle h)
    with 5 show ?thesis
      by (auto intro: trans [OF p_unsub])
  qed
next
  case (6 n opts ev args st)
  then show ?case
    by (auto simp: emit.simps Let_def p_trace split: if_splits intro: trans [OF p_trace])
next
  case (7 opts ev args a i st)
  then show ?case by simp
next
  case (8 n opts ev args a i st)
  show ?case
  proof (cases "length (sets st a) \<le> i")
    case True
    with 8 show ?thesis by (simp add: refl)
  next
    case False
    show ?thesis
    proof (cases "sets st a ! i")
      case None
      with 8 False show ?thesis by simp
    next
      case (Some l)
      note entry = this
      show ?thesis
      proof (cases "invoke n opts l args st")
        case None
        with "8.prems" False entry show ?thesis by simp
      next
        case (Some p)
        obtain r s where p: "p = (r, s)" by (cases p)
        have first: "R st s"
          using "8.IH"(2) False entry Some p by auto
        show ?thesis
        proof (cases r)
          case (Inl err)
          define s2 where "s2 = error err (ErrorContext (object opts) ev l) s"
          have second: "R st s2"
            unfolding s2_def using first p_error by (rule trans)
          show ?thesis
          proof (cases "strict opts")
            case True
            with "8.prems" False entry Some p Inl second show ?thesis
              by (simp add: s2_def)
          next
            case nonstrict: False
            with "8.prems" False entry Some p Inl
            have "emit_loop n opts ev args a (Suc i) s2 = Some (r4, st')"
              by (simp add: s2_def)
            with "8.IH"(3) False entry Some p Inl nonstrict have "R s2 st'"
              by (auto simp: s2_def)
            with second show ?thesis by (rule trans)
          qed
        next
          case (Inr u)
          with "8.prems" False entry Some p
          have "emit_loop n opts ev args a (Suc i) s = Some (r4, st')"
            by simp
          with "8.IH"(4) False entry Some p Inr have "R s st'"
            by auto
          with first show ?thesis by (rule trans)
        qed
      qed
    qed
  qed
next
  case (9 n opts ev args st)
  define a where "a = getListeners st ev"
  define st1 where
    "st1 = trace opts ''emitAsync'' (Emission (set_values (sets st a)) ev args) st"
  have first: "R st st1"
    unfolding st1_def by (rule p_trace)
  show ?case
  proof (cases "set_size (sets st1 a) = 0")
    case True
    with "9.prems" first show ?thesis
      by (simp add: emitAsync.simps Let_def a_def st1_def)
  next
    case False
    with "9.prems" obtain cs where
      "async_calls n opts ev args (set_values (sets st1 a)) st1 = Some (cs, st')"
      by (auto simp: emitAsync.simps Let_def a_def st1_def split: option.splits)
    with "9.IH" False have "R st1 st'"
      by (auto simp: a_def st1_def)
    with first show ?thesis by (rule trans)
  qed
next
  case (10 n opts ev args st)
  then show ?case by (simp add: refl)
next
  case (11 n opts ev args l ls st)
  show ?case
  proof (cases "invoke n opts l args st")
    case None
    with "11.prems" show ?thesis by simp
  next
    case (Some p)
    obtain r s where p: "p = (r, s)" by (cases p)
    have first: "R st s"
      using "11.IH"(1) Some p by auto
    show ?thesis
    proof (cases r)
      case (Inl err)
      define s2 where "s2 = error err (ErrorContext (object opts) ev l) s"
      have second: "R st s2"
        unfolding s2_def using first p_error by (rule trans)
      from "11.prems" Some p Inl obtain cs where
        "async_calls n opts ev args ls s2 = Some (cs, st')"
        by (auto simp: s2_def split: option.splits)
      with "11.IH"(2) Some p Inl have "R s2 st'"
        by (auto simp: s2_def)
      with second show ?thesis by (rule trans)
    next
      case (Inr u)
      from "11.prems" Some p Inr obtain cs where
        "async_calls n opts ev args ls s = Some (cs, st')"
        by (auto split: option.splits)
      with "11.IH"(3) Some p Inr have "R s st'"
        by auto
      with first show ?thesis by (rule trans)
    qed
  qed
qed
qed

subsection \<open>Set objects and the shape of the store\<close>

lemma functionTypeGuard_isFunction:
  "isFunction v \<longleftrightarrow> (\<exists>l. functionTypeGuard v = Inr l)"
  by (cases v) (simp_all add: isFunction_def functionTypeGuard_def)

lemma set_size_values: "set_size s = length (set_values s)"
  by (induction s) (auto simp: set_size_def set_values_def List.map_filter_simps)

lemma set_values_mem: "l \<in> set (set_values s) \<longleftrightarrow> Some l \<in> set s"
  by (induction s) (auto simp: set_values_def List.map_filter_simps split: option.splits)

lemma set_values_Nil [simp]: "set_values [] = []"
  by (simp add: set_values_def List.map_filter_simps)

lemma set_values_append: "set_values (s @ t) = set_values s @ set_values t"
  by (simp add: set_values_def List.map_filter_def)

lemma set_values_add:
  "set_values (set_add s l) = (if l \<in> set (set_values s) then set_values s else set_values s @ [l])"
  by (simp add: set_add_def set_values_mem set_values_append) (simp add: set_values_def List.map_filter_simps)

lemma set_values_delete: "set_values (set_delete s l) = removeAll l (set_values s)"
  by (induction s) (auto simp: set_values_def set_delete_def List.map_filter_simps split: option.splits)

lemma registry_ok_initial: "registry_ok initial"
  by (simp add: registry_ok_def initial_def emptySet_def)

lemma registry_okD:
  assumes "registry_ok st" and "map_tbl st ev = Some a"
  shows "a < next_set st" and "set_values (sets st a) \<noteq> []" and "a \<noteq> emptySet"
    and "map_tbl st ev' = Some a \<Longrightarrow> ev' = ev"
  using assms unfolding registry_ok_def set_size_values by (blast, blast, force, blast)

lemma registry_okI:
  assumes "emptySet < next_set st" and "sets st emptySet = []"
    and "\<And>ev a. map_tbl st ev = Some a \<Longrightarrow> a < next_set st \<and> set_values (sets st a) \<noteq> []"
    and "\<And>ev ev' a. map_tbl st ev = Some a \<Longrightarrow> map_tbl st ev' = Some a \<Longrightarrow> ev = ev'"
    and "\<And>a. distinct (set_values (sets st a))"
  shows "registry_ok st"
  using assms unfolding registry_ok_def set_size_values by blast

lemma registry_ok_add:
  assumes ok: "registry_ok st"
  shows "registry_ok (add ev l st)"
proof (cases "map_tbl st ev")
  case None
  have fresh: "\<And>ev' a. map_tbl st ev' = Some a \<Longrightarrow> a \<noteq> next_set st"
    using registry_okD(1) [OF ok] by fastforce
  show ?thesis
  proof (rule registry_okI)
    show "emptySet < next_set (add ev l st)"
      using ok None by (simp add: add_def registry_ok_def)
    show "sets (add ev l st) emptySet = []"
      using ok None by (auto simp: add_def registry_ok_def)
    show "a < next_set (add ev l st) \<and> set_values (sets (add ev l st) a) \<noteq> []"
      if "map_tbl (add ev l st) ev' = Some a" for ev' a
      using that None registry_okD(1,2) [OF ok] fresh
      by (auto simp: add_def set_values_add less_Suc_eq split: if_splits)
    show "ev1 = ev2"
      if "map_tbl (add ev l st) ev1 = Some a" and "map_tbl (add ev l st) ev2 = Some a"
      for ev1 ev2 a
      using that None registry_okD(4) [OF ok] fresh [of ev1 a] fresh [of ev2 a]
      by (auto simp: add_def split: if_splits)
    show "distinct (set_values (sets (add ev l st) a))" for a
      using ok None by (simp add: add_def registry_ok_def set_values_add)
  qed
next
  case (Some b)
  show ?thesis
  proof (rule registry_okI)
    show "emptySet < next_set (add ev l st)"
      using ok Some by (simp add: add_def registry_ok_def)
    show "sets (add ev l st) emptySet = []"
      using ok Some registry_okD(3) [OF ok Some] by (auto simp: add_def registry_ok_def)
    show "a < next_set (add ev l st) \<and> set_values (sets (add ev l st) a) \<noteq> []"
      if "map_tbl (add ev l st) ev' = Some a" for ev' a
      using that Some registry_okD(1,2) [OF ok]
      by (auto simp: add_def set_values_add)
    show "ev1 = ev2"
      if "map_tbl (add ev l st) ev1 = Some a" and "map_tbl (add ev l st) ev2 = Some a"
      for ev1 ev2 a
      using that Some registry_okD(4) [OF ok]
      by (auto simp: add_def)
    show "distinct (set_values (sets (add ev l st) a))" for a
      using ok Some by (simp add: add_def registry_ok_def set_values_add)
  qed
qed

lemma registry_ok_remove:
  assumes ok: "registry_ok st"
  shows "registry_ok (snd (remove ev l st))"
proof (cases "map_tbl st ev")
  case None
  with ok show ?thesis by (simp add: remove_def)
next
  case (Some b)
  have other: "\<And>ev' a. ev' \<noteq> ev \<Longrightarrow> map_tbl st ev' = Some a \<Longrightarrow> a \<noteq> b"
    using registry_okD(4) [OF ok Some] by blast
  show ?thesis
  proof (rule registry_okI)
    show "emptySet < next_set (snd (remove ev l st))"
      using ok Some by (simp add: remove_def Let_def registry_ok_def)
    show "sets (snd (remove ev l st)) emptySet = []"
      using ok Some registry_okD(3) [OF ok Some]
      by (auto simp: remove_def Let_def registry_ok_def)
    show "a < next_set (snd (remove ev l st))
          \<and> set_values (sets (snd (remove ev l st)) a) \<noteq> []"
      if "map_tbl (snd (remove ev l st)) ev' = Some a" for ev' a
      using that Some registry_okD(1,2) [OF ok] other
      by (cases "ev' = ev")
         (auto simp: remove_def Let_def set_size_values set_values_delete split: if_splits)
    show "ev1 = ev2"
      if "map_tbl (snd (remove ev l st)) ev1 = Some a"
        and "map_tbl (snd (remove ev l st)) ev2 = Some a"
      for ev1 ev2 a
      using that Some registry_okD(4) [OF ok]
      by (auto simp: remove_def Let_def split: if_splits)
    show "distinct (set_values (sets (snd (remove ev l st)) a))" for a
      using ok Some
      by (simp add: remove_def Let_def registry_ok_def set_values_delete distinct_removeAll)
  qed
qed

lemma registry_ok_fields:
  assumes "map_tbl st' = map_tbl st" and "sets st' = sets st" and "next_set st' = next_set st"
  shows "registry_ok st' = registry_ok st"
  by (simp add: registry_ok_def assms)

lemma registry_ok_trace [simp]: "registry_ok (trace opts name p st) = registry_ok st"
  by (rule registry_ok_fields) (simp_all add: trace_def)

lemma registry_ok_error [simp]: "registry_ok (error err ctx st) = registry_ok st"
  by (rule registry_ok_fields) (simp_all add: error_def)

lemma registry_ok_calls [simp]: "registry_ok (st\<lparr> calls := cs \<rparr>) = registry_ok st"
  by (rule registry_ok_fields) simp_all

lemma registry_ok_handles [simp]: "registry_ok (st\<lparr> handles := hs \<rparr>) = registry_ok st"
  by (rule registry_ok_fields) simp_all

lemma registry_ok_on: "registry_ok st \<Longrightarrow> registry_ok (snd (on opts ev v st))"
  by (simp add: on_def Let_def registry_ok_add split: sum.splits)

lemma registry_ok_off: "registry_ok st \<Longrightarrow> registry_ok (snd (off opts ev v st))"
proof (cases "functionTypeGuard v")
  case (Inl err)
  assume "registry_ok st"
  with Inl show ?thesis by (simp add: off_def)
next
  case (Inr l)
  assume "registry_ok st"
  then have "registry_ok (snd (remove ev l (trace opts ''off'' (Subscription ev l) st)))"
    by (simp add: registry_ok_remove)
  with Inr show ?thesis
    by (cases "remove ev l (trace opts ''off'' (Subscription ev l) st)") (simp add: off_def)
qed

lemma registry_ok_unsubscribe: "registry_ok st \<Longrightarrow> registry_ok (snd (unsubscribe h st))"
proof -
  assume ok: "registry_ok st"
  show ?thesis
  proof (cases "h < length (handles st) \<and> fst (handles st ! h)")
    case False
    with ok show ?thesis by (auto simp: unsubscribe_def split: prod.splits)
  next
    case True
    obtain ev l where hl: "handles st ! h = (True, ev, l)"
      using True by (cases "handles st ! h") auto
    have "registry_ok (snd (remove ev l (st\<lparr> handles := (handles st)[h := (False, ev, l)] \<rparr>)))"
      using ok by (simp add: registry_ok_remove)
    with True hl show ?thesis by (simp add: unsubscribe_def)
  qed
qed

lemma registry_kept_run:
  shows "invoke n opts l args st = Some (r1, st') \<Longrightarrow> registry_kept st st'"
    and "run_body n opts as st = Some (r2, st') \<Longrightarrow> registry_kept st st'"
    and "emit n opts ev args st = Some (r3, st') \<Longrightarrow> registry_kept st st'"
    and "emit_loop n opts ev args a i st = Some (r4, st') \<Longrightarrow> registry_kept st st'"
    and "emitAsync n opts ev args st = Some (r5, st') \<Longrightarrow> registry_kept st st'"
    and "async_calls n opts ev args ls st = Some (r6, st') \<Longrightarrow> registry_kept st st'"
  by (erule steps_rel [of registry_kept, rotated -1];
      simp add: registry_kept_def registry_ok_on registry_ok_off registry_ok_unsubscribe)+

lemma registry_ok_run:
  assumes "registry_ok st"
  shows "invoke n opts l args st = Some (r1, st') \<Longrightarrow> registry_ok st'"
    and "run_body n opts as st = Some (r2, st') \<Longrightarrow> registry_ok st'"
    and "emit n opts ev args st = Some (r3, st') \<Longrightarrow> registry_ok st'"
    and "emit_loop n opts ev args a i st = Some (r4, st') \<Longrightarrow> registry_ok st'"
    and "emitAsync n opts ev args st = Some (r5, st') \<Longrightarrow> registry_ok st'"
    and "async_calls n opts ev args ls st = Some (r6, st') \<Longrightarrow> registry_ok st'"
  using assms by (auto dest!: registry_kept_run simp: registry_kept_def)

lemma registry_ok_client:
  "registry_ok st \<Longrightarrow> client n opts script st = Some st' \<Longrightarrow> registry_ok st'"
proof (induction script arbitrary: st)
  case Nil
  then show ?case by simp
next
  case (Cons act script)
  from Cons.prems obtain r s where
    step: "run_body n opts [act] st = Some (r, s)" and rest: "client n opts script s = Some st'"
    by (auto split: option.splits)
  from Cons.prems(1) step have "registry_ok s" by (rule registry_ok_run(2))
  then show ?case using rest by (rule Cons.IH)
qed

lemma listeners_entry:
  assumes "registry_ok st"
  shows "(map_tbl st ev \<noteq> None) = (listeners st ev \<noteq> [])"
proof (cases "map_tbl st ev")
  case None
  with assms show ?thesis
    by (simp add: listeners_def getListeners_def registry_ok_def)
next
  case (Some a)
  with registry_okD(2) [OF assms Some] show ?thesis
    by (simp add: listeners_def getListeners_def)
qed

subsection \<open>The listeners of an event under the operations\<close>

lemma listeners_fields:
  assumes "map_tbl st' = map_tbl st" and "sets st' = sets st"
  shows "listeners st' = listeners st"
  by (rule ext) (simp add: listeners_def getListeners_def assms)

lemma listeners_trace [simp]: "listeners (trace opts name p st) = listeners st"
  by (rule listeners_fields) (simp_all add: trace_def)

lemma listeners_error [simp]: "listeners (error err ctx st) = listeners st"
  by (rule listeners_fields) (simp_all add: error_def)

lemma listeners_calls [simp]: "listeners (st\<lparr> calls := cs \<rparr>) = listeners st"
  by (rule listeners_fields) simp_all

lemma listeners_handles [simp]: "listeners (st\<lparr> handles := hs \<rparr>) = listeners st"
  by (rule listeners_fields) simp_all

lemma listeners_traced [simp]: "listeners (st\<lparr> traced := ts \<rparr>) = listeners st"
  by (rule listeners_fields) simp_all

lemma getListeners_other:
  assumes "registry_ok st" and "map_tbl st ev = Some a" and "ev' \<noteq> ev"
  shows "getListeners st ev' \<noteq> a"
proof (cases "map_tbl st ev'")
  case None
  with registry_okD(3) [OF assms(1,2)] show ?thesis by (simp add: getListeners_def)
next
  case (Some a')
  with registry_okD(4) [OF assms(1,2), of ev'] assms(3) show ?thesis
    by (auto simp: getListeners_def)
qed

lemma getListeners_allocated:
  assumes "registry_ok st"
  shows "getListeners st ev < next_set st"
proof (cases "map_tbl st ev")
  case None
  with assms show ?thesis by (simp add: getListeners_def registry_ok_def)
next
  case (Some a)
  with registry_okD(1) [OF assms Some] show ?thesis by (simp add: getListeners_def)
qed

lemma listeners_add:
  assumes ok: "registry_ok st"
  shows "listeners (add ev l st) ev' =
           (if ev' = ev
            then (if l \<in> set (listeners st ev) then listeners st ev else listeners st ev @ [l])
            else listeners st ev')"
proof (cases "map_tbl st ev")
  case None
  then have old: "listeners st ev = []"
    using ok by (simp add: listeners_def getListeners_def registry_ok_def)
  show ?thesis
  proof (cases "ev' = ev")
    case True
    with None old show ?thesis
      by (simp add: listeners_def getListeners_def add_def set_values_add)
  next
    case False
    have "getListeners st ev' \<noteq> next_set st"
      using getListeners_allocated [OF ok, of ev'] by simp
    moreover have "getListeners (add ev l st) ev' = getListeners st ev'"
      using None False by (simp add: getListeners_def add_def)
    ultimately show ?thesis
      using None False by (simp add: listeners_def add_def)
  qed
next
  case (Some a)
  show ?thesis
  proof (cases "ev' = ev")
    case True
    with Some show ?thesis
      by (simp add: listeners_def getListeners_def add_def set_values_add)
  next
    case False
    have "getListeners st ev' \<noteq> a"
      using ok Some False by (rule getListeners_other)
    moreover have "getListeners (add ev l st) ev' = getListeners st ev'"
      using Some False by (simp add: getListeners_def add_def)
    ultimately show ?thesis
      using Some False by (simp add: listeners_def add_def)
  qed
qed

lemma set_delete_absent: "Some l \<notin> set s \<Longrightarrow> set_delete s l = s"
  by (induction s) (auto simp: set_delete_def)

lemma fst_remove:
  assumes ok: "registry_ok st"
  shows "fst (remove ev l st) = (l \<in> set (listeners st ev))"
proof (cases "map_tbl st ev")
  case None
  then have "listeners st ev = []"
    using ok by (simp add: listeners_def getListeners_def registry_ok_def)
  with None show ?thesis by (simp add: remove_def)
next
  case (Some a)
  then show ?thesis
    by (simp add: remove_def Let_def listeners_def getListeners_def set_values_mem)
qed

lemma listeners_remove:
  assumes ok: "registry_ok st"
  shows "listeners (snd (remove ev l st)) ev' =
           (if ev' = ev then removeAll l (listeners st ev) else listeners st ev')"
proof (cases "map_tbl st ev")
  case None
  then have "listeners st ev = []"
    using ok by (simp add: listeners_def getListeners_def registry_ok_def)
  with None show ?thesis by (simp add: remove_def)
next
  case (Some a)
  have empty: "sets st emptySet = []" using ok by (simp add: registry_ok_def)
  have a: "a \<noteq> emptySet" using ok Some by (rule registry_okD(3))
  show ?thesis
  proof (cases "ev' = ev")
    case True
    with Some empty a show ?thesis
      by (simp add: listeners_def getListeners_def remove_def Let_def
            set_values_delete set_size_values)
  next
    case False
    have other: "getListeners st ev' \<noteq> a"
      using ok Some False by (rule getListeners_other)
    have "getListeners (snd (remove ev l st)) ev' = getListeners st ev'"
      using Some False by (simp add: getListeners_def remove_def Let_def)
    moreover have "sets (snd (remove ev l st)) (getListeners st ev') = sets st (getListeners st ev')"
      using Some other by (simp add: remove_def Let_def)
    ultimately show ?thesis
      using False by (simp add: listeners_def)
  qed
qed

lemma remove_absent:
  assumes "registry_ok st" and "l \<notin> set (listeners st ev)"
  shows "remove ev l st = (False, st)"
proof (cases "map_tbl st ev")
  case None
  then show ?thesis by (simp add: remove_def)
next
  case (Some a)
  with assms(2) have "Some l \<notin> set (sets st a)"
    by (simp add: listeners_def getListeners_def set_values_mem)
  moreover have "set_values (sets st a) \<noteq> []"
    using assms(1) Some by (rule registry_okD(2))
  ultimately show ?thesis
    using Some by (simp add: remove_def Let_def set_delete_absent set_size_values)
qed

subsection \<open>Handles\<close>

lemma handles_add [simp]: "handles (add ev l st) = handles st"
  by (simp add: add_def split: option.splits)

lemma handles_remove [simp]: "handles (snd (remove ev l st)) = handles st"
  by (simp add: remove_def Let_def split: option.splits)

lemma handles_trace [simp]: "handles (trace opts name p st) = handles st"
  by (simp add: trace_def)

lemma handles_error [simp]: "handles (error err ctx st) = handles st"
  by (simp add: error_def)

lemma handles_kept_refl: "handles_kept st st"
  by (simp add: handles_kept_def)

lemma handles_kept_trans:
  "handles_kept a b \<Longrightarrow> handles_kept b c \<Longrightarrow> handles_kept a c"
  unfolding handles_kept_def by (metis (no_types, lifting) le_trans less_le_trans)

lemma handles_kept_same: "handles st' = handles st \<Longrightarrow> handles_kept st st'"
  by (simp add: handles_kept_def)

lemma on_function:
  "on opts ev (Fn l) st =
     (Inr (length (handles st)),
      (add ev l (trace opts ''on'' (Subscription ev l) st))
        \<lparr> handles := handles st @ [(True, ev, l)] \<rparr>)"
  by (simp add: on_def functionTypeGuard_def Let_def)

lemma handles_kept_on: "handles_kept st (snd (on opts ev v st))"
  by (cases v) (simp_all add: on_function handles_kept_def nth_append,
                simp_all add: on_def functionTypeGuard_def)

lemma handles_kept_off: "handles_kept st (snd (off opts ev v st))"
proof (cases "functionTypeGuard v")
  case (Inl err)
  then show ?thesis by (simp add: off_def handles_kept_refl)
next
  case (Inr l)
  have "handles (snd (remove ev l (trace opts ''off'' (Subscription ev l) st))) = handles st"
    by simp
  with Inr show ?thesis
    by (cases "remove ev l (trace opts ''off'' (Subscription ev l) st)")
       (simp add: off_def handles_kept_same)
qed

lemma unsubscribe_inactive:
  "\<not> (h < length (handles st) \<and> fst (handles st ! h)) \<Longrightarrow> unsubscribe h st = (False, st)"
  by (auto simp: unsubscribe_def split: prod.splits)

lemma unsubscribe_active:
  assumes "h < length (handles st)" and "handles st ! h = (True, ev, l)"
  shows "unsubscribe h st = remove ev l (st\<lparr> handles := (handles st)[h := (False, ev, l)] \<rparr>)"
  using assms by (simp add: unsubscribe_def)

lemma handles_kept_unsubscribe: "handles_kept st (snd (unsubscribe h st))"
proof (cases "h < length (handles st) \<and> fst (handles st ! h)")
  case False
  then show ?thesis by (simp add: unsubscribe_inactive handles_kept_refl)
next
  case True
  then obtain ev l where hl: "handles st ! h = (True, ev, l)"
    by (cases "handles st ! h") auto
  have "handles (snd (unsubscribe h st)) = (handles st)[h := (False, ev, l)]"
    using True hl by (simp add: unsubscribe_active)
  with True hl show ?thesis
    by (auto simp: handles_kept_def nth_list_update)
qed

lemma handles_kept_run:
  shows "invoke n opts l args st = Some (r1, st') \<Longrightarrow> handles_kept st st'"
    and "run_body n opts as st = Some (r2, st') \<Longrightarrow> handles_kept st st'"
    and "emit n opts ev args st = Some (r3, st') \<Longrightarrow> handles_kept st st'"
    and "emit_loop n opts ev args a i st = Some (r4, st') \<Longrightarrow> handles_kept st st'"
    and "emitAsync n opts ev args st = Some (r5, st') \<Longrightarrow> handles_kept st st'"
    and "async_calls n opts ev args ls st = Some (r6, st') \<Longrightarrow> handles_kept st st'"
  by (erule steps_rel [of handles_kept, rotated -1];
      (rule handles_kept_refl handles_kept_on handles_kept_off handles_kept_unsubscribe
        | erule (1) handles_kept_trans | simp add: handles_kept_same))+

lemma handles_kept_client:
  "client n opts script st = Some st' \<Longrightarrow> handles_kept st st'"
proof (induction script arbitrary: st)
  case Nil
  then show ?case by (simp add: handles_kept_refl)
next
  case (Cons act script)
  from Cons.prems obtain r s where
    step: "run_body n opts [act] st = Some (r, s)" and rest: "client n opts script s = Some st'"
    by (auto split: option.splits)
  from step have "handles_kept st s" by (rule handles_kept_run(2))
  moreover from rest have "handles_kept s st'" by (rule Cons.IH)
  ultimately show ?case by (rule handles_kept_trans)
qed

subsection \<open>Evaluating a run on given inputs\<close>

lemmas run_simps = on_def once_def off_def unsubscribe_def add_def remove_def trace_def
  error_def functionTypeGuard_def getListeners_def set_add_def set_delete_def set_size_def
  set_values_def List.map_filter_simps emit.simps emitAsync.simps initial_def Let_def
  emptySet_def awaited_def eval_nat_numeral

subsection \<open>Attaching to an object that has some of the names\<close>

text \<open>
  A target on which \<^verbatim>\<open>in\<close> finds one of the five names of the loop is refused with the
  error \<^verbatim>\<open>Method "..." already exists.\<close>, and nothing is defined on it.
\<close>

lemma eventful_collision:
  assumes "m \<in> set checked_methods" and "properties t = Some ps" and "ps m \<noteq> None"
  shows "\<exists>m' \<in> set checked_methods. eventful t = Inl (already_exists m')"
proof -
  from assms(1,3) obtain m' where
    "find (\<lambda>m. ps m \<noteq> None) checked_methods = Some m'"
    by (cases "find (\<lambda>m. ps m \<noteq> None) checked_methods") (auto simp: find_None_iff)
  moreover from this have "m' \<in> set checked_methods"
    by (auto simp: find_Some_iff)
  ultimately show ?thesis
    using assms(2) by (auto simp: eventful_def)
qed

text \<open>
  Claim C2. Every name that is attached should be refused when the target has it already.
  The loop of \<^verbatim>\<open>eventful\<close> checks \<^verbatim>\<open>on\<close>, \<^verbatim>\<open>once\<close>, \<^verbatim>\<open>off\<close>, \<^verbatim>\<open>emit\<close> and \<^verbatim>\<open>has\<close>, while
  \<^verbatim>\<open>Object.defineProperties\<close> defines \<^verbatim>\<open>emitAsync\<close> as well: on an object whose only
  property is \<^verbatim>\<open>emitAsync\<close> the call succeeds and the property is replaced by the method.
\<close>

theorem eventful_overwrites_emitAsync:
  "eventful (ObjectArgument ((\<lambda>_. None)(''emitAsync'' := Some (Existing v)))) =
     Inr (ObjectArgument (defineProperties (\<lambda>_. None)), initial)
   \<and> defineProperties ((\<lambda>_. None)(''emitAsync'' := Some (Existing v))) ''emitAsync''
       = Some (Attached CapEmitAsync)"
proof -
  have "defineProperties ((\<lambda>_. None)(''emitAsync'' := Some (Existing v)))
        = defineProperties (\<lambda>_. None)"
    by (rule ext) (simp add: defineProperties_def)
  then show ?thesis
    by (simp add: eventful_def properties_def checked_methods_def with_properties_def)
       (simp add: defineProperties_def)
qed

subsection \<open>Emitting an event that has no listener\<close>

lemma emit_absent:
  assumes "map_tbl st ev = None" and "sets st emptySet = []"
  shows "emit n opts ev args st =
        Some (Inr (), st\<lparr> traced := traced st @ [(object opts, ''emit'', Emission [] ev args)] \<rparr>)"
    and "emitAsync n opts ev args st =
        Some (Resolves,
              st\<lparr> traced := traced st @ [(object opts, ''emitAsync'', Emission [] ev args)] \<rparr>)"
  using assms
  by (simp_all add: emit.simps emitAsync.simps getListeners_def trace_def set_size_def)

text \<open>
  Claim C8. For an event without listeners, \<^verbatim>\<open>has\<close> answers false, and \<^verbatim>\<open>emit\<close> and
  \<^verbatim>\<open>emitAsync\<close> return normally, whatever the bound, after calling the trace hook once
  with their tag and the payload of no listeners, the event and the arguments; nothing
  else of the state changes, so the registry is as before and no listener was invoked.
\<close>

theorem emit_without_listeners:
  assumes "registry_ok st" and "listeners st ev = []"
  shows "has st ev = False
    \<and> emit n opts ev args st =
        Some (Inr (), st\<lparr> traced := traced st @ [(object opts, ''emit'', Emission [] ev args)] \<rparr>)
    \<and> emitAsync n opts ev args st =
        Some (Resolves,
              st\<lparr> traced := traced st @ [(object opts, ''emitAsync'', Emission [] ev args)] \<rparr>)"
proof -
  from assms have none: "map_tbl st ev = None"
    using listeners_entry by blast
  moreover from assms(1) have "sets st emptySet = []"
    by (simp add: registry_ok_def)
  ultimately show ?thesis
    using emit_absent [of st ev n opts args] by (simp add: has_def)
qed

theorem emit_without_listeners_witness:
  "registry_ok (snd (on \<lparr> strict = False, object = 0 \<rparr> ''a'' (Fn (User 0 [] (Return Plain))) initial))
   \<and> has (snd (on \<lparr> strict = False, object = 0 \<rparr> ''a'' (Fn (User 0 [] (Return Plain))) initial)) ''b'' = False
   \<and> map_option (\<lambda>(r, s). (r, traced s, calls s))
        (emit 0 \<lparr> strict = False, object = 0 \<rparr> ''b'' [Num 1]
          (snd (on \<lparr> strict = False, object = 0 \<rparr> ''a'' (Fn (User 0 [] (Return Plain))) initial)))
      = Some (Inr (),
              [(0, ''on'', Subscription ''a'' (User 0 [] (Return Plain))),
               (0, ''emit'', Emission [] ''b'' [Num 1])],
              [])"
proof -
  let ?st = "snd (on \<lparr> strict = False, object = 0 \<rparr> ''a'' (Fn (User 0 [] (Return Plain))) initial)"
  have ok: "registry_ok ?st"
    by (rule registry_ok_on) (rule registry_ok_initial)
  have none: "listeners ?st ''b'' = []"
    by (simp add: listeners_def run_simps)
  show ?thesis
    using ok emit_without_listeners [OF ok none, of 0 "\<lparr> strict = False, object = 0 \<rparr>" "[Num 1]"]
    by (simp add: run_simps)
qed

subsection \<open>Registry entries and listeners\<close>

text \<open>
  Claim C4. In every state that a program of \<^verbatim>\<open>on\<close>, \<^verbatim>\<open>once\<close>, \<^verbatim>\<open>off\<close>, handle, \<^verbatim>\<open>emit\<close> and
  \<^verbatim>\<open>emitAsync\<close> calls reaches from a fresh instance, whatever the listeners do when they
  are invoked, the map has an entry for an event exactly when the event has a listener,
  which is what \<^verbatim>\<open>has\<close> answers, and the set of an entry is never empty.
\<close>

theorem registry_entry_iff_listeners:
  assumes "client n opts script initial = Some st"
  shows "(map_tbl st ev \<noteq> None) = (listeners st ev \<noteq> [])
    \<and> has st ev = (listeners st ev \<noteq> [])
    \<and> (\<forall>a. map_tbl st ev = Some a \<longrightarrow> set_values (sets st a) \<noteq> [])"
proof -
  have ok: "registry_ok st"
    using registry_ok_initial assms by (rule registry_ok_client)
  then show ?thesis
    using listeners_entry [OF ok, of ev] registry_okD(2) [OF ok]
    by (auto simp: has_def listeners_def getListeners_def set_size_values split: option.splits)
qed

theorem registry_entry_iff_listeners_witness:
  "\<exists>st. client 4 \<lparr> strict = False, object = 0 \<rparr>
          [DoOn ''a'' (Fn (User 0 [] (Return Plain))),
           DoOnce ''b'' (Fn (User 1 [] (Throws (Error ''x'')))),
           DoEmit ''b'' [],
           DoOff ''a'' (Fn (User 0 [] (Return Plain)))] initial = Some st
        \<and> map_tbl st ''a'' = None \<and> listeners st ''a'' = []
        \<and> map_tbl st ''b'' = None \<and> listeners st ''b'' = []"
proof -
  let ?run = "client 4 \<lparr> strict = False, object = 0 \<rparr>
          [DoOn ''a'' (Fn (User 0 [] (Return Plain))),
           DoOnce ''b'' (Fn (User 1 [] (Throws (Error ''x'')))),
           DoEmit ''b'' [],
           DoOff ''a'' (Fn (User 0 [] (Return Plain)))] initial"
  obtain st where run: "?run = Some st" and a: "map_tbl st ''a'' = None" and b: "map_tbl st ''b'' = None"
    by (simp add: run_simps)
  from registry_entry_iff_listeners [OF run, of "''a''"] registry_entry_iff_listeners [OF run, of "''b''"] a b
  have "listeners st ''a'' = []" and "listeners st ''b'' = []" by simp_all
  with run a b show ?thesis by blast
qed

subsection \<open>Synchronous emission\<close>

text \<open>
  Invoking a listener that does not call back into the emitter records the call and
  returns or throws; the loop of \<^verbatim>\<open>emit\<close> over such listeners therefore meets the set as
  it was when the loop began.
\<close>

lemma invoke_inert:
  assumes "inert l"
  shows "invoke (Suc n) opts l args st =
           Some (case throwing l of None \<Rightarrow> Inr (case l of User _ _ (Return r) \<Rightarrow> r | _ \<Rightarrow> Plain)
                 | Some err \<Rightarrow> Inl err,
                 st\<lparr> calls := calls st @ [(l, args)] \<rparr>)"
proof (cases l)
  case (User tag body fin)
  with assms show ?thesis by (cases fin) simp_all
next
  case (Adapter h l')
  with assms show ?thesis by simp
qed

lemma set_values_drop_None:
  "i < length s \<Longrightarrow> s ! i = None \<Longrightarrow> set_values (drop i s) = set_values (drop (Suc i) s)"
  by (simp add: set_values_def List.map_filter_simps flip: Cons_nth_drop_Suc)

lemma set_values_drop_Some:
  "i < length s \<Longrightarrow> s ! i = Some l \<Longrightarrow> set_values (drop i s) = l # set_values (drop (Suc i) s)"
  by (simp add: set_values_def List.map_filter_simps flip: Cons_nth_drop_Suc)

lemma emit_loop_inert:
  assumes "\<forall>l \<in> set (set_values (drop i (sets st a))). inert l"
    and "length (sets st a) - i < n"
  shows "emit_loop n opts ev args a i st =
           Some (outcome (strict opts) (set_values (drop i (sets st a))),
                 st\<lparr> calls := calls st @
                       map (\<lambda>l. (l, args)) (deliveries (strict opts) (set_values (drop i (sets st a)))),
                     errors := errors st @
                       reports (object opts) ev
                         (deliveries (strict opts) (set_values (drop i (sets st a)))) \<rparr>)"
  using assms
proof (induction n arbitrary: i st)
  case 0
  then show ?case by simp
next
  case (Suc n)
  let ?s = "sets st a"
  show ?case
  proof (cases "length ?s \<le> i")
    case True
    then show ?thesis by simp
  next
    case False
    then have i: "i < length ?s" by simp
    show ?thesis
    proof (cases "?s ! i")
      case None
      have "emit_loop (Suc n) opts ev args a i st = emit_loop n opts ev args a (Suc i) st"
        using i None by simp
      moreover have "\<forall>l \<in> set (set_values (drop (Suc i) ?s)). inert l"
        using Suc.prems(1) set_values_drop_None [OF i None] by simp
      moreover have "length ?s - Suc i < n"
        using Suc.prems(2) i by linarith
      ultimately show ?thesis
        using Suc.IH [of "Suc i" st] set_values_drop_None [OF i None] by simp
    next
      case (Some l)
      note vals = set_values_drop_Some [OF i Some]
      have inert: "inert l" using Suc.prems(1) vals by simp
      obtain m where n: "n = Suc m"
        using Suc.prems(2) i by (cases n) auto
      let ?st1 = "st\<lparr> calls := calls st @ [(l, args)] \<rparr>"
      have inv: "invoke n opts l args st =
           Some (case throwing l of None \<Rightarrow> Inr (case l of User _ _ (Return r) \<Rightarrow> r | _ \<Rightarrow> Plain)
                 | Some err \<Rightarrow> Inl err, ?st1)"
        unfolding n by (rule invoke_inert [OF inert])
      have rest: "\<forall>l \<in> set (set_values (drop (Suc i) ?s)). inert l"
        using Suc.prems(1) vals by simp
      have fuel: "length ?s - Suc i < n"
        using Suc.prems(2) i by linarith
      show ?thesis
      proof (cases "throwing l")
        case None
        have "emit_loop (Suc n) opts ev args a i st = emit_loop n opts ev args a (Suc i) ?st1"
          using i Some None inv by simp
        then show ?thesis
          using Suc.IH [of "Suc i" ?st1] rest fuel vals None by simp
      next
        case (Some err)
        let ?st2 = "error err (ErrorContext (object opts) ev l) ?st1"
        show ?thesis
        proof (cases "strict opts")
          case True
          then show ?thesis
            using i \<open>?s ! i = Some l\<close> Some inv vals
            by (simp add: error_def)
        next
          case False
          have "emit_loop (Suc n) opts ev args a i st = emit_loop n opts ev args a (Suc i) ?st2"
            using i \<open>?s ! i = Some l\<close> Some inv False
            by simp
          then show ?thesis
            using Suc.IH [of "Suc i" ?st2] rest fuel vals Some False by (simp add: error_def)
        qed
      qed
    qed
  qed
qed

text \<open>
  Whatever a listener does before it throws, the loop tells the error hook the error with
  the object, the event and that listener, and then stops with the error under \<open>strict\<close>
  and goes on with the next entry otherwise.
\<close>

lemma emit_loop_throws:
  assumes "i < length (sets st a)" and "sets st a ! i = Some l"
    and "invoke n opts l args st = Some (Inl err, st1)"
  shows "emit_loop (Suc n) opts ev args a i st =
           (if strict opts
            then Some (Inl err, error err (ErrorContext (object opts) ev l) st1)
            else emit_loop n opts ev args a (Suc i)
                   (error err (ErrorContext (object opts) ev l) st1))"
  using assms by (simp del: invoke.simps emit_loop.simps add: emit_loop.simps(2) [of n])

lemma deliveries_not_strict: "deliveries False ls = ls"
  by (induction ls) simp_all

lemma deliveries_strict:
  "deliveries True ls =
     takeWhile (\<lambda>l. throwing l = None) ls @ take 1 (dropWhile (\<lambda>l. throwing l = None) ls)"
  by (induction ls) simp_all

lemma deliveries_all:
  "(str \<longrightarrow> (\<forall>l \<in> set ls. throwing l = None)) \<Longrightarrow> deliveries str ls = ls"
  by (induction ls) auto

lemma emit_present:
  assumes "listeners st ev \<noteq> []"
  shows "emit n opts ev args st =
           emit_loop n opts ev args (getListeners st ev) 0
             (trace opts ''emit'' (Emission (listeners st ev) ev args) st)"
  using assms by (simp add: emit.simps Let_def listeners_def set_size_values trace_def)

lemma emit_inert_calls:
  assumes "listeners st ev \<noteq> []"
    and "\<forall>l \<in> set (listeners st ev). inert l"
    and "length (sets st (getListeners st ev)) < n"
  shows "\<exists>r st'. emit n opts ev args st = Some (r, st') \<and>
           calls st' = calls st @
             map (\<lambda>l. (l, args)) (deliveries (strict opts) (listeners st ev))"
proof -
  let ?st1 = "trace opts ''emit'' (Emission (listeners st ev) ev args) st"
  have "sets ?st1 = sets st" and "calls ?st1 = calls st"
    by (simp_all add: trace_def)
  then show ?thesis
    using assms emit_loop_inert [of 0 ?st1 "getListeners st ev" n opts ev args]
    by (simp add: emit_present) (simp add: listeners_def trace_def)
qed

text \<open>
  What the emitter above does for an event with listeners, none of which calls back into
  it: \<^verbatim>\<open>emit\<close> with a bound above the size of the set returns after
  \<^item> one call of the trace hook,
  \<^item> the invocation of the listeners in insertion order, each with the arguments of the
    emission: all of them when \<open>strict\<close> is off, and those up to the first that throws
    when it is on (\<open>deliveries\<close>),
  \<^item> one call of the error hook per listener that threw, with the error and the object,
    event and listener (\<open>reports\<close>),
  and it throws the first error to its caller exactly when \<open>strict\<close> is on (\<open>outcome\<close>).
\<close>

lemma emit_delivers_in_order:
  assumes "listeners st ev \<noteq> []"
    and "\<forall>l \<in> set (listeners st ev). inert l"
    and "length (sets st (getListeners st ev)) < n"
  shows "emit n opts ev args st =
           Some (outcome (strict opts) (listeners st ev),
                 st\<lparr> traced := traced st @
                       [(object opts, ''emit'', Emission (listeners st ev) ev args)],
                     calls := calls st @
                       map (\<lambda>l. (l, args)) (deliveries (strict opts) (listeners st ev)),
                     errors := errors st @
                       reports (object opts) ev (deliveries (strict opts) (listeners st ev)) \<rparr>)"
proof -
  let ?a = "getListeners st ev"
  let ?st1 = "trace opts ''emit'' (Emission (listeners st ev) ev args) st"
  have sets: "sets ?st1 = sets st" by (simp add: trace_def)
  have "emit n opts ev args st = emit_loop n opts ev args ?a 0 ?st1"
    using assms(1) by (rule emit_present)
  moreover have "\<forall>l \<in> set (set_values (drop 0 (sets ?st1 ?a))). inert l"
    using assms(2) by (simp add: trace_def listeners_def)
  moreover have "length (sets ?st1 ?a) - 0 < n"
    using assms(3) by (simp add: sets)
  ultimately show ?thesis
    using emit_loop_inert [of 0 ?st1 ?a n opts ev args]
    by (simp add: trace_def listeners_def)
qed

lemma emit_delivers_in_order_example:
  "listeners
     (snd (on \<lparr> strict = False, object = 0 \<rparr> ''test'' (Fn (User 13 [] (Return Plain)))
       (snd (on \<lparr> strict = False, object = 0 \<rparr> ''test'' (Fn (User 12 [] (Throws (Error ''boom''))))
         (snd (on \<lparr> strict = False, object = 0 \<rparr> ''test'' (Fn (User 11 [] (Return Plain)))
           initial))))))
     ''test''
    = [User 11 [] (Return Plain), User 12 [] (Throws (Error ''boom'')), User 13 [] (Return Plain)]
   \<and> map_option (\<lambda>(r, s). (r, calls s, errors s))
       (emit 4 \<lparr> strict = False, object = 0 \<rparr> ''test'' [Num 5]
         (snd (on \<lparr> strict = False, object = 0 \<rparr> ''test'' (Fn (User 13 [] (Return Plain)))
           (snd (on \<lparr> strict = False, object = 0 \<rparr> ''test'' (Fn (User 12 [] (Throws (Error ''boom''))))
             (snd (on \<lparr> strict = False, object = 0 \<rparr> ''test'' (Fn (User 11 [] (Return Plain)))
               initial)))))))
    = Some (Inr (),
            [(User 11 [] (Return Plain), [Num 5]),
             (User 12 [] (Throws (Error ''boom'')), [Num 5]),
             (User 13 [] (Return Plain), [Num 5])],
            [(Error ''boom'', ErrorContext 0 ''test'' (User 12 [] (Throws (Error ''boom''))))])
   \<and> map_option (\<lambda>(r, s). (r, calls s, errors s))
       (emit 4 \<lparr> strict = True, object = 0 \<rparr> ''test'' [Num 5]
         (snd (on \<lparr> strict = False, object = 0 \<rparr> ''test'' (Fn (User 13 [] (Return Plain)))
           (snd (on \<lparr> strict = False, object = 0 \<rparr> ''test'' (Fn (User 12 [] (Throws (Error ''boom''))))
             (snd (on \<lparr> strict = False, object = 0 \<rparr> ''test'' (Fn (User 11 [] (Return Plain)))
               initial)))))))
    = Some (Inl (Error ''boom''),
            [(User 11 [] (Return Plain), [Num 5]),
             (User 12 [] (Throws (Error ''boom'')), [Num 5])],
            [(Error ''boom'', ErrorContext 0 ''test'' (User 12 [] (Throws (Error ''boom''))))])"
proof -
  let ?st = "snd (on \<lparr> strict = False, object = 0 \<rparr> ''test'' (Fn (User 13 [] (Return Plain)))
       (snd (on \<lparr> strict = False, object = 0 \<rparr> ''test'' (Fn (User 12 [] (Throws (Error ''boom''))))
         (snd (on \<lparr> strict = False, object = 0 \<rparr> ''test'' (Fn (User 11 [] (Return Plain)))
           initial)))))"
  have ls: "listeners ?st ''test''
      = [User 11 [] (Return Plain), User 12 [] (Throws (Error ''boom'')), User 13 [] (Return Plain)]"
    by (simp add: listeners_def run_simps)
  have len: "length (sets ?st (getListeners ?st ''test'')) < 4"
    by (simp add: run_simps)
  have logs: "calls ?st = []" "errors ?st = []"
    by (simp_all add: run_simps)
  have inert: "\<forall>l \<in> set (listeners ?st ''test''). inert l"
    by (simp add: ls)
  have ne: "listeners ?st ''test'' \<noteq> []"
    by (simp add: ls)
  show ?thesis
    using emit_delivers_in_order [OF ne inert len, of "\<lparr> strict = False, object = 0 \<rparr>" "[Num 5]"]
      emit_delivers_in_order [OF ne inert len, of "\<lparr> strict = True, object = 0 \<rparr>" "[Num 5]"]
    by (simp add: ls logs)
qed

text \<open>
  Claim C3. When a listener throws, the error hook should be called with the error and
  the object, event and listener. The older \<^verbatim>\<open>emit\<close> iterates and isolates the errors
  as the one above does, but calls the error hook with the error alone: with one
  listener that throws, the hook has been given a single argument after the emission,
  whether the error is swallowed (not strict) or thrown on (strict).
\<close>

theorem emit_older_error_hook_without_context:
  "map_option (\<lambda>(r, st, told). (r, told, calls st))
     (emit_older 2 (thrower (Error ''test error'')) \<lparr> strict = False, object = 0 \<rparr> ''test'' []
        (add ''test'' (User 11 [] (Throws (Error ''test error''))) initial, []))
   = Some (Inr (), [[ErrorArgument (Error ''test error'')]],
           [(User 11 [] (Throws (Error ''test error'')), [])])
   \<and>
   map_option (\<lambda>(r, st, told). (r, told, calls st))
     (emit_older 2 (thrower (Error ''test error'')) \<lparr> strict = True, object = 0 \<rparr> ''test'' []
        (add ''test'' (User 11 [] (Throws (Error ''test error''))) initial, []))
   = Some (Inl (Error ''test error''), [[ErrorArgument (Error ''test error'')]],
           [(User 11 [] (Throws (Error ''test error'')), [])])"
  by (simp add: emit_older_def thrower_def run_simps)

subsection \<open>Asynchronous emission\<close>

text \<open>
  \<^verbatim>\<open>emitAsync\<close> to listeners that do not call back invokes them all in insertion order,
  whatever \<open>strict\<close> is, and tells the error hook of those that threw: a listener whose
  promise rejects is not among them.
\<close>

lemma async_calls_inert:
  assumes "\<forall>l \<in> set ls. inert l"
  shows "async_calls (Suc n) opts ev args ls st =
           Some (map settles ls,
                 st\<lparr> calls := calls st @ map (\<lambda>l. (l, args)) ls,
                     errors := errors st @ reports (object opts) ev ls \<rparr>)"
  using assms
proof (induction ls arbitrary: st)
  case Nil
  then show ?case by simp
next
  case (Cons l ls)
  then have inert: "inert l" and rest: "\<forall>l \<in> set ls. inert l" by simp_all
  obtain tag fin where l: "l = User tag [] fin"
    using inert by (cases l) simp_all
  show ?case
  proof (cases fin)
    case (Return r)
    then show ?thesis
      using l Cons.IH [OF rest] by (cases r) simp_all
  next
    case (Throws err)
    then show ?thesis
      using l Cons.IH [OF rest] by (simp add: error_def)
  qed
qed

lemma emitAsync_inert:
  assumes "listeners st ev \<noteq> []" and "\<forall>l \<in> set (listeners st ev). inert l"
  shows "emitAsync (Suc n) opts ev args st =
           Some (awaited (strict opts) (map settles (listeners st ev)),
                 st\<lparr> traced := traced st @
                       [(object opts, ''emitAsync'', Emission (listeners st ev) ev args)],
                     calls := calls st @ map (\<lambda>l. (l, args)) (listeners st ev),
                     errors := errors st @ reports (object opts) ev (listeners st ev) \<rparr>)"
proof -
  let ?st1 = "trace opts ''emitAsync'' (Emission (listeners st ev) ev args) st"
  have "emitAsync (Suc n) opts ev args st =
          (case async_calls (Suc n) opts ev args (listeners st ev) ?st1 of
             None \<Rightarrow> None
           | Some (cs, st2) \<Rightarrow> Some (awaited (strict opts) cs, st2))"
    using assms(1)
    by (simp add: emitAsync.simps Let_def listeners_def set_size_values trace_def)
  then show ?thesis
    using async_calls_inert [OF assms(2), of n opts ev args ?st1]
    by (simp add: trace_def)
qed

lemma reports_rejecting_promise:
  "reports obj ev [User tag [] (Return (Promise (Rejects err)))] = []"
  by simp

text \<open>
  Claim C1. A listener that returns a promise which rejects should be reported to the
  error hook, as one that throws is. In \<^verbatim>\<open>emitAsync\<close> the hook is called in the
  \<^verbatim>\<open>catch\<close> block only, which a rejection does not reach: it goes to \<^verbatim>\<open>reject\<close> through
  \<^verbatim>\<open>then(resolve, reject)\<close>. With one such listener the error hook has been told nothing
  after the emission, whether the promise of \<^verbatim>\<open>emitAsync\<close> fulfils (not strict) or
  rejects (strict).
\<close>

theorem emitAsync_rejection_not_reported:
  "map_option (\<lambda>(r, s). (r, errors s, calls s))
     (emitAsync 2 \<lparr> strict = False, object = 0 \<rparr> ''test'' []
        (snd (on \<lparr> strict = False, object = 0 \<rparr> ''test''
                (Fn (User 0 [] (Return (Promise (Rejects (Error ''async fail''))))))
                initial)))
   = Some (Resolves, [],
           [(User 0 [] (Return (Promise (Rejects (Error ''async fail'')))), [])])
   \<and>
   map_option (\<lambda>(r, s). (r, errors s, calls s))
     (emitAsync 2 \<lparr> strict = True, object = 0 \<rparr> ''test'' []
        (snd (on \<lparr> strict = True, object = 0 \<rparr> ''test''
                (Fn (User 0 [] (Return (Promise (Rejects (Error ''async fail''))))))
                initial)))
   = Some (RejectsWithOneOf [Error ''async fail''], [],
           [(User 0 [] (Return (Promise (Rejects (Error ''async fail'')))), [])])"
  by (simp add: run_simps)

subsection \<open>The function returned by on\<close>

text \<open>
  Claim C5. Let \<open>u\<close> be the handle that \<^verbatim>\<open>on(ev, f)\<close> returns. After any program of calls,
  if \<open>u\<close> has not been used and \<open>f\<close> is still a listener of \<open>ev\<close>, then calling \<open>u\<close>
  answers true and removes \<open>f\<close>, and only \<open>f\<close>, from the listeners of \<open>ev\<close>, leaving the
  other events as they are. After that, whatever program of calls follows (it may
  subscribe \<open>f\<close> to \<open>ev\<close> again), calling \<open>u\<close> answers false and changes nothing.
\<close>

theorem handle_single_use:
  assumes ok: "registry_ok st0"
    and sub: "on opts ev (Fn f) st0 = (Inr u, st1)"
    and run1: "client n1 opts s1 st1 = Some st2"
    and active: "fst (handles st2 ! u)"
    and reg: "f \<in> set (listeners st2 ev)"
  shows "\<exists>st3. unsubscribe u st2 = (True, st3)
       \<and> listeners st3 ev = removeAll f (listeners st2 ev)
       \<and> (\<forall>ev'. ev' \<noteq> ev \<longrightarrow> listeners st3 ev' = listeners st2 ev')
       \<and> (\<forall>n2 s2 st4. client n2 opts s2 st3 = Some st4 \<longrightarrow> unsubscribe u st4 = (False, st4))"
proof -
  from sub have u: "u = length (handles st0)"
    and h1: "handles st1 = handles st0 @ [(True, ev, f)]"
    and st1: "st1 = snd (on opts ev (Fn f) st0)"
    by (auto simp: on_function)
  have ok1: "registry_ok st1"
    unfolding st1 using ok by (rule registry_ok_on)
  have ok2: "registry_ok st2"
    using ok1 run1 by (rule registry_ok_client)
  have kept: "handles_kept st1 st2"
    using run1 by (rule handles_kept_client)
  have u1: "u < length (handles st1)" and e1: "handles st1 ! u = (True, ev, f)"
    by (simp_all add: u h1)
  from kept u1 e1 have u2: "u < length (handles st2)" and "snd (handles st2 ! u) = (ev, f)"
    by (auto simp: handles_kept_def)
  with active have e2: "handles st2 ! u = (True, ev, f)"
    by (cases "handles st2 ! u") simp
  define st2' where "st2' = st2\<lparr> handles := (handles st2)[u := (False, ev, f)] \<rparr>"
  define st3 where "st3 = snd (remove ev f st2')"
  have ok2': "registry_ok st2'" and ls2': "listeners st2' = listeners st2"
    using ok2 by (simp_all add: st2'_def)
  have call: "unsubscribe u st2 = remove ev f st2'"
    unfolding st2'_def using u2 e2 by (rule unsubscribe_active)
  have "fst (remove ev f st2')"
    using fst_remove [OF ok2', of ev f] reg ls2' by simp
  then have first: "unsubscribe u st2 = (True, st3)"
    unfolding call st3_def by (cases "remove ev f st2'") simp
  have same: "listeners st3 ev = removeAll f (listeners st2 ev)"
    unfolding st3_def using listeners_remove [OF ok2', of ev f ev] ls2' by simp
  have others: "\<forall>ev'. ev' \<noteq> ev \<longrightarrow> listeners st3 ev' = listeners st2 ev'"
    unfolding st3_def using listeners_remove [OF ok2', of ev f] ls2' by simp
  have h3: "handles st3 = (handles st2)[u := (False, ev, f)]"
    by (simp add: st3_def st2'_def)
  have later: "unsubscribe u st4 = (False, st4)"
    if "client n2 opts s2 st3 = Some st4" for n2 s2 st4
  proof -
    from that have "handles_kept st3 st4" by (rule handles_kept_client)
    moreover have "u < length (handles st3)" and "\<not> fst (handles st3 ! u)"
      using u2 by (simp_all add: h3)
    ultimately have "\<not> fst (handles st4 ! u)"
      by (auto simp: handles_kept_def)
    then show ?thesis by (simp add: unsubscribe_inactive)
  qed
  from first same others later show ?thesis by blast
qed

theorem handle_single_use_witness:
  "\<exists>st2 st3 st4.
      client 1 \<lparr> strict = False, object = 0 \<rparr> [DoOn ''e'' (Fn (User 12 [] (Return Plain)))]
        (snd (on \<lparr> strict = False, object = 0 \<rparr> ''e'' (Fn (User 11 [] (Return Plain))) initial))
        = Some st2
    \<and> listeners st2 ''e'' = [User 11 [] (Return Plain), User 12 [] (Return Plain)]
    \<and> unsubscribe 0 st2 = (True, st3)
    \<and> listeners st3 ''e'' = [User 12 [] (Return Plain)]
    \<and> client 1 \<lparr> strict = False, object = 0 \<rparr> [DoOn ''e'' (Fn (User 11 [] (Return Plain)))] st3
        = Some st4
    \<and> listeners st4 ''e'' = [User 12 [] (Return Plain), User 11 [] (Return Plain)]
    \<and> unsubscribe 0 st4 = (False, st4)"
proof -
  let ?opts = "\<lparr> strict = False, object = 0 \<rparr>"
  let ?f = "User 11 [] (Return Plain)"
  let ?g = "User 12 [] (Return Plain)"
  let ?st1 = "snd (on ?opts ''e'' (Fn ?f) initial)"
  have sub: "on ?opts ''e'' (Fn ?f) initial = (Inr 0, ?st1)"
    by (simp add: on_function initial_def)
  obtain st2 where run1: "client 1 ?opts [DoOn ''e'' (Fn ?g)] ?st1 = Some st2"
    and active: "fst (handles st2 ! 0)"
    and ls2: "listeners st2 ''e'' = [?f, ?g]"
    by (simp add: listeners_def run_simps)
  have reg: "?f \<in> set (listeners st2 ''e'')"
    unfolding ls2 by simp
  from handle_single_use [OF registry_ok_initial sub run1 active reg]
  obtain st3 where first: "unsubscribe 0 st2 = (True, st3)"
    and ls3: "listeners st3 ''e'' = removeAll ?f (listeners st2 ''e'')"
    and later: "\<And>n2 s2 st4. client n2 ?opts s2 st3 = Some st4 \<Longrightarrow> unsubscribe 0 st4 = (False, st4)"
    by blast
  have ok3: "registry_ok st3"
    using registry_ok_unsubscribe [OF registry_ok_client [OF registry_ok_on [OF registry_ok_initial] run1], of 0]
      first by simp
  define st4 where "st4 = snd (on ?opts ''e'' (Fn ?f) st3)"
  have run2: "client 1 ?opts [DoOn ''e'' (Fn ?f)] st3 = Some st4"
    by (simp add: st4_def on_function)
  have ls3': "listeners st3 ''e'' = [?g]"
    unfolding ls3 ls2 by simp
  have ls4: "listeners st4 ''e'' = [?g, ?f]"
    unfolding st4_def
    using listeners_add [of "trace ?opts ''on'' (Subscription ''e'' ?f) st3" "''e''" ?f "''e''"]
      ok3 ls3'
    by (simp add: on_function)
  from run1 ls2 first ls3' run2 ls4 later [OF run2] show ?thesis by blast
qed

subsection \<open>Subscribing the same listener again\<close>

lemma listeners_on:
  assumes "registry_ok st"
  shows "listeners (snd (on opts ev (Fn l) st)) ev' =
           (if ev' = ev
            then (if l \<in> set (listeners st ev) then listeners st ev else listeners st ev @ [l])
            else listeners st ev')"
  using listeners_add [of "trace opts ''on'' (Subscription ev l) st" ev l ev'] assms
  by (simp add: on_function)

lemma off_function:
  assumes "registry_ok st"
  shows "fst (off opts ev (Fn l) st) = Inr (l \<in> set (listeners st ev))"
    and "listeners (snd (off opts ev (Fn l) st)) ev' =
           (if ev' = ev then removeAll l (listeners st ev) else listeners st ev')"
    and "registry_ok (snd (off opts ev (Fn l) st))"
proof -
  let ?st = "trace opts ''off'' (Subscription ev l) st"
  have ok: "registry_ok ?st" using assms by simp
  have off: "off opts ev (Fn l) st = (Inr (fst (remove ev l ?st)), snd (remove ev l ?st))"
    by (cases "remove ev l ?st") (simp add: off_def functionTypeGuard_def)
  show "fst (off opts ev (Fn l) st) = Inr (l \<in> set (listeners st ev))"
    using fst_remove [OF ok, of ev l] by (simp add: off)
  show "listeners (snd (off opts ev (Fn l) st)) ev' =
           (if ev' = ev then removeAll l (listeners st ev) else listeners st ev')"
    using listeners_remove [OF ok, of ev l ev'] by (simp add: off)
  show "registry_ok (snd (off opts ev (Fn l) st))"
    using assms by (rule registry_ok_off)
qed

lemma add_present:
  assumes "registry_ok st" and "l \<in> set (listeners st ev)"
  shows "add ev l st = st"
proof (cases "map_tbl st ev")
  case None
  with assms show ?thesis
    by (simp add: listeners_def getListeners_def registry_ok_def)
next
  case (Some a)
  with assms(2) have "Some l \<in> set (sets st a)"
    by (simp add: listeners_def getListeners_def set_values_mem)
  with Some show ?thesis by (simp add: add_def set_add_def)
qed

lemma distinct_listeners: "registry_ok st \<Longrightarrow> distinct (listeners st ev)"
  by (simp add: registry_ok_def listeners_def)

lemma count_list_distinct: "distinct xs \<Longrightarrow> x \<in> set xs \<Longrightarrow> count_list xs x = 1"
  by (induction xs) (auto simp: count_list_0_iff)

lemma count_list_pairs: "count_list (map (\<lambda>l. (l, args)) ls) (f, args) = count_list ls f"
  by (induction ls) simp_all

text \<open>
  Claim C6. Subscribing \<open>f\<close> to \<open>ev\<close> a second time leaves the map and the sets as the
  first subscription left them, with \<open>f\<close> once among the listeners of \<open>ev\<close>. An emission to
  listeners that do not call back, none of which throws if \<open>strict\<close> is on, then invokes
  \<open>f\<close> exactly once with the arguments of the emission. Subscribing \<open>f\<close> to another
  event, or another function (be it of the same body) to the same event, makes an
  entry of its own: both are listeners, and \<^verbatim>\<open>off(ev, f)\<close> removes \<open>f\<close> from \<open>ev\<close> only.
\<close>

theorem on_twice_is_once:
  assumes ok: "registry_ok st"
    and first: "on opts ev (Fn f) st = (r1, st1)"
    and second: "on opts ev (Fn f) st1 = (r2, st2)"
  shows "map_tbl st2 = map_tbl st1 \<and> sets st2 = sets st1 \<and> next_set st2 = next_set st1
    \<and> listeners st2 = listeners st1
    \<and> count_list (listeners st2 ev) f = 1
    \<and> ((\<forall>l \<in> set (listeners st2 ev). inert l)
         \<and> (strict opts \<longrightarrow> (\<forall>l \<in> set (listeners st2 ev). throwing l = None))
         \<and> length (sets st2 (getListeners st2 ev)) < n
        \<longrightarrow> (\<exists>r st3. emit n opts ev args st2 = Some (r, st3)
              \<and> count_list (drop (length (calls st2)) (calls st3)) (f, args) = 1))
    \<and> (\<forall>ev'. ev' \<noteq> ev \<longrightarrow>
          (let st3 = snd (on opts ev' (Fn f) st2); st4 = snd (off opts ev (Fn f) st3)
           in f \<in> set (listeners st3 ev) \<and> f \<in> set (listeners st3 ev')
              \<and> f \<notin> set (listeners st4 ev) \<and> f \<in> set (listeners st4 ev')))
    \<and> (\<forall>g. g \<noteq> f \<longrightarrow>
          (let st3 = snd (on opts ev (Fn g) st2); st4 = snd (off opts ev (Fn f) st3)
           in count_list (listeners st3 ev) f = 1 \<and> count_list (listeners st3 ev) g = 1
              \<and> f \<notin> set (listeners st4 ev) \<and> g \<in> set (listeners st4 ev)))"
proof -
  from first have st1: "st1 = snd (on opts ev (Fn f) st)" by simp
  have ok1: "registry_ok st1"
    unfolding st1 using ok by (rule registry_ok_on)
  have in1: "f \<in> set (listeners st1 ev)"
    unfolding st1 using listeners_on [OF ok, of opts ev f ev] by (simp split: if_splits)
  let ?t = "trace opts ''on'' (Subscription ev f) st1"
  have "add ev f ?t = ?t"
    using ok1 in1 by (intro add_present) simp_all
  with second have st2: "st2 = ?t\<lparr> handles := handles st1 @ [(True, ev, f)] \<rparr>"
    by (simp add: on_function)
  have same: "map_tbl st2 = map_tbl st1 \<and> sets st2 = sets st1 \<and> next_set st2 = next_set st1"
    by (simp add: st2 trace_def)
  have ls: "listeners st2 = listeners st1"
    by (simp add: st2)
  have ok2: "registry_ok st2"
    using ok1 by (simp add: st2)
  have in2: "f \<in> set (listeners st2 ev)"
    using in1 by (simp add: ls)
  have once: "count_list (listeners st2 ev) f = 1"
    using distinct_listeners [OF ok2] in2 by (rule count_list_distinct)
  have emitted: "\<exists>r st3. emit n opts ev args st2 = Some (r, st3)
              \<and> count_list (drop (length (calls st2)) (calls st3)) (f, args) = 1"
    if inert: "\<forall>l \<in> set (listeners st2 ev). inert l"
      and quiet: "strict opts \<longrightarrow> (\<forall>l \<in> set (listeners st2 ev). throwing l = None)"
      and fuel: "length (sets st2 (getListeners st2 ev)) < n"
  proof -
    have ne: "listeners st2 ev \<noteq> []" using in2 by auto
    from emit_inert_calls [OF ne inert fuel, of opts args] obtain r st3 where
      run: "emit n opts ev args st2 = Some (r, st3)"
      and log: "calls st3 = calls st2 @
                  map (\<lambda>l. (l, args)) (deliveries (strict opts) (listeners st2 ev))"
      by blast
    have "deliveries (strict opts) (listeners st2 ev) = listeners st2 ev"
      using quiet by (rule deliveries_all)
    with log once have "count_list (drop (length (calls st2)) (calls st3)) (f, args) = 1"
      by (simp add: count_list_pairs)
    with run show ?thesis by blast
  qed
  have events: "f \<in> set (listeners st3 ev) \<and> f \<in> set (listeners st3 ev')
              \<and> f \<notin> set (listeners st4 ev) \<and> f \<in> set (listeners st4 ev')"
    if "ev' \<noteq> ev" and "st3 = snd (on opts ev' (Fn f) st2)"
      and "st4 = snd (off opts ev (Fn f) st3)" for ev' st3 st4
  proof -
    have ok3: "registry_ok st3"
      unfolding that(2) using ok2 by (rule registry_ok_on)
    have l3: "listeners st3 ev = listeners st2 ev" "f \<in> set (listeners st3 ev')"
      unfolding that(2) using listeners_on [OF ok2, of opts ev' f] that(1)
      by (simp_all split: if_splits)
    have "listeners st4 ev = removeAll f (listeners st3 ev)"
      and "listeners st4 ev' = listeners st3 ev'"
      unfolding that(3) using off_function(2) [OF ok3, of opts ev f] that(1) by simp_all
    with l3 in2 show ?thesis by simp
  qed
  have closures: "count_list (listeners st3 ev) f = 1 \<and> count_list (listeners st3 ev) g = 1
              \<and> f \<notin> set (listeners st4 ev) \<and> g \<in> set (listeners st4 ev)"
    if "g \<noteq> f" and "st3 = snd (on opts ev (Fn g) st2)"
      and "st4 = snd (off opts ev (Fn f) st3)" for g st3 st4
  proof -
    have ok3: "registry_ok st3"
      unfolding that(2) using ok2 by (rule registry_ok_on)
    have l3: "f \<in> set (listeners st3 ev)" "g \<in> set (listeners st3 ev)"
      unfolding that(2) using listeners_on [OF ok2, of opts ev g ev] in2
      by (simp_all split: if_splits)
    have "listeners st4 ev = removeAll f (listeners st3 ev)"
      unfolding that(3) using off_function(2) [OF ok3, of opts ev f ev] by simp
    with l3 that(1) distinct_listeners [OF ok3, of ev] show ?thesis
      by (simp add: count_list_distinct)
  qed
  from same ls once emitted events closures show ?thesis
    unfolding Let_def by blast
qed

theorem on_twice_is_once_witness:
  "\<exists>st1 st2.
      on \<lparr> strict = False, object = 0 \<rparr> ''e'' (Fn (User 11 [] (Return Plain))) initial = (Inr 0, st1)
    \<and> on \<lparr> strict = False, object = 0 \<rparr> ''e'' (Fn (User 11 [] (Return Plain))) st1 = (Inr 1, st2)
    \<and> sets st2 = sets st1
    \<and> listeners st2 ''e'' = [User 11 [] (Return Plain)]
    \<and> (\<exists>r st3. emit 3 \<lparr> strict = False, object = 0 \<rparr> ''e'' [Num 5] st2 = Some (r, st3)
          \<and> count_list (drop (length (calls st2)) (calls st3))
                (User 11 [] (Return Plain), [Num 5]) = 1)
    \<and> User 11 [] (Return Plain)
        \<in> set (listeners
              (snd (off \<lparr> strict = False, object = 0 \<rparr> ''e'' (Fn (User 11 [] (Return Plain)))
                (snd (on \<lparr> strict = False, object = 0 \<rparr> ''x'' (Fn (User 11 [] (Return Plain)))
                  st2))))
              ''x'')
    \<and> User 12 [] (Return Plain)
        \<in> set (listeners
              (snd (off \<lparr> strict = False, object = 0 \<rparr> ''e'' (Fn (User 11 [] (Return Plain)))
                (snd (on \<lparr> strict = False, object = 0 \<rparr> ''e'' (Fn (User 12 [] (Return Plain)))
                  st2))))
              ''e'')"
proof -
  let ?opts = "\<lparr> strict = False, object = 0 \<rparr>"
  let ?f = "User 11 [] (Return Plain)"
  let ?g = "User 12 [] (Return Plain)"
  define st1 where "st1 = snd (on ?opts ''e'' (Fn ?f) initial)"
  define st2 where "st2 = snd (on ?opts ''e'' (Fn ?f) st1)"
  have first: "on ?opts ''e'' (Fn ?f) initial = (Inr 0, st1)"
    by (simp add: st1_def on_function initial_def)
  have second: "on ?opts ''e'' (Fn ?f) st1 = (Inr 1, st2)"
    by (simp add: st2_def st1_def on_function initial_def)
  have ls2: "listeners st2 ''e'' = [?f]"
    by (simp add: st2_def st1_def listeners_def run_simps)
  have len: "length (sets st2 (getListeners st2 ''e'')) < 3"
    by (simp add: st2_def st1_def run_simps)
  note all = on_twice_is_once [OF registry_ok_initial first second, of 3 "[Num 5]", unfolded Let_def]
  note tail3 = all [THEN conjunct2, THEN conjunct2, THEN conjunct2]
  note tail5 = tail3 [THEN conjunct2, THEN conjunct2]
  have same: "sets st2 = sets st1"
    by (rule all [THEN conjunct2, THEN conjunct1])
  have "\<exists>r st3. emit 3 ?opts ''e'' [Num 5] st2 = Some (r, st3)
          \<and> count_list (drop (length (calls st2)) (calls st3)) (?f, [Num 5]) = 1"
    by (rule tail5 [THEN conjunct1, THEN mp]) (simp add: ls2 len)
  then obtain r st3 where run: "emit 3 ?opts ''e'' [Num 5] st2 = Some (r, st3)"
    and count: "count_list (drop (length (calls st2)) (calls st3)) (?f, [Num 5]) = 1"
    by blast
  have events:
    "?f \<in> set (listeners (snd (off ?opts ''e'' (Fn ?f) (snd (on ?opts ''x'' (Fn ?f) st2)))) ''x'')"
    using tail5 [THEN conjunct2, THEN conjunct1, rule_format, of "''x''"] by simp
  have closures:
    "?g \<in> set (listeners (snd (off ?opts ''e'' (Fn ?f) (snd (on ?opts ''e'' (Fn ?g) st2)))) ''e'')"
    using tail5 [THEN conjunct2, THEN conjunct2, rule_format, of ?g] by simp
  show ?thesis
  proof (intro exI conjI)
    show "on ?opts ''e'' (Fn ?f) initial = (Inr 0, st1)" by (rule first)
    show "on ?opts ''e'' (Fn ?f) st1 = (Inr 1, st2)" by (rule second)
    show "sets st2 = sets st1" by (rule same)
    show "listeners st2 ''e'' = [?f]" by (rule ls2)
    show "emit 3 ?opts ''e'' [Num 5] st2 = Some (r, st3)" by (rule run)
    show "count_list (drop (length (calls st2)) (calls st3)) (?f, [Num 5]) = 1" by (rule count)
    show "?f \<in> set (listeners (snd (off ?opts ''e'' (Fn ?f) (snd (on ?opts ''x'' (Fn ?f) st2)))) ''x'')"
      by (rule events)
    show "?g \<in> set (listeners (snd (off ?opts ''e'' (Fn ?f) (snd (on ?opts ''e'' (Fn ?g) st2)))) ''e'')"
      by (rule closures)
  qed
qed

subsection \<open>The adapter of once\<close>

lemma adapter_differs: "Adapter h l \<noteq> l"
proof
  assume "Adapter h l = l"
  then have "size (Adapter h l) = size l" by simp
  then show False by simp
qed

lemma once_function:
  "once opts ev (Fn f) st = on opts ev (Fn (Adapter (length (handles st)) f)) st"
  by (simp add: once_def functionTypeGuard_def)

lemma calls_remove [simp]: "calls (snd (remove ev l st)) = calls st"
  by (simp add: remove_def Let_def split: option.splits)

lemma once_registered:
  assumes ok: "registry_ok st"
    and fresh: "Adapter (length (handles st)) f \<notin> set (listeners st ev)"
    and sub: "once opts ev (Fn f) st = (r, st1)"
  shows "r = Inr (length (handles st))"
    and "registry_ok st1"
    and "listeners st1 ev = listeners st ev @ [Adapter (length (handles st)) f]"
    and "handles st1 = handles st @ [(True, ev, Adapter (length (handles st)) f)]"
    and "calls st1 = calls st"
proof -
  let ?A = "Adapter (length (handles st)) f"
  from sub have r: "r = Inr (length (handles st))" and st1: "st1 = snd (on opts ev (Fn ?A) st)"
    by (auto simp: once_function on_function)
  show "r = Inr (length (handles st))" by (rule r)
  show "registry_ok st1"
    unfolding st1 using ok by (rule registry_ok_on)
  show "listeners st1 ev = listeners st ev @ [?A]"
    unfolding st1 using listeners_on [OF ok, of opts ev ?A ev] fresh by simp
  show "handles st1 = handles st @ [(True, ev, ?A)]"
    by (simp add: st1 on_function)
  show "calls st1 = calls st"
    by (simp add: st1 on_function add_def trace_def split: option.splits)
qed

lemma once_handle:
  assumes ok: "registry_ok st"
    and fresh: "Adapter (length (handles st)) f \<notin> set (listeners st ev)"
    and sub: "once opts ev (Fn f) st = (r, st1)"
  shows "fst (unsubscribe (length (handles st)) st1) = True"
    and "listeners (snd (unsubscribe (length (handles st)) st1)) ev = listeners st ev"
    and "calls (snd (unsubscribe (length (handles st)) st1)) = calls st"
proof -
  let ?h = "length (handles st)"
  let ?A = "Adapter ?h f"
  note reg = once_registered [OF assms]
  let ?st1' = "st1\<lparr> handles := (handles st1)[?h := (False, ev, ?A)] \<rparr>"
  have call: "unsubscribe ?h st1 = remove ev ?A ?st1'"
    by (rule unsubscribe_active) (simp_all add: reg(4))
  have ok': "registry_ok ?st1'" using reg(2) by simp
  show "fst (unsubscribe ?h st1) = True"
    using fst_remove [OF ok', of ev ?A] by (simp add: call reg(3))
  show "listeners (snd (unsubscribe ?h st1)) ev = listeners st ev"
    using listeners_remove [OF ok', of ev ?A ev] fresh by (simp add: call reg(3))
  show "calls (snd (unsubscribe ?h st1)) = calls st"
    by (simp add: call reg(5))
qed

text \<open>
  Claim C9. After \<^verbatim>\<open>once(ev, f)\<close> the listener registered under \<open>ev\<close> is the adapter, a new
  function (so not a listener before the call), not \<open>f\<close>. So \<^verbatim>\<open>off(ev, f)\<close> answers whether \<open>f\<close> itself had been subscribed
  before, false if it had not, in which case it changes nothing but the trace, and in
  either case the adapter stays registered. The handle that \<^verbatim>\<open>once\<close> returned removes
  the adapter, and so does the adapter when it is invoked.
\<close>

theorem off_after_once:
  assumes ok: "registry_ok st"
    and fresh: "Adapter (length (handles st)) f \<notin> set (listeners st ev)"
    and sub: "once opts ev (Fn f) st = (r, st1)"
  shows "r = Inr (length (handles st))
    \<and> listeners st1 ev = listeners st ev @ [Adapter (length (handles st)) f]
    \<and> fst (off opts ev (Fn f) st1) = Inr (f \<in> set (listeners st ev))
    \<and> Adapter (length (handles st)) f \<in> set (listeners (snd (off opts ev (Fn f) st1)) ev)
    \<and> (f \<notin> set (listeners st ev) \<longrightarrow>
         off opts ev (Fn f) st1 = (Inr False, trace opts ''off'' (Subscription ev f) st1))
    \<and> (\<exists>st2. unsubscribe (length (handles st)) st1 = (True, st2)
           \<and> listeners st2 ev = listeners st ev)
    \<and> (inert f \<longrightarrow>
         (\<exists>r' st3. invoke (Suc (Suc n)) opts (Adapter (length (handles st)) f) args st1
                     = Some (r', st3)
             \<and> listeners st3 ev = listeners st ev
             \<and> calls st3 = calls st1 @ [(f, args)]))"
proof -
  let ?h = "length (handles st)"
  let ?A = "Adapter ?h f"
  note reg = once_registered [OF assms]
  note handle = once_handle [OF assms]
  have diff: "?A \<noteq> f" by (rule adapter_differs)
  have answer: "fst (off opts ev (Fn f) st1) = Inr (f \<in> set (listeners st ev))"
    using off_function(1) [OF reg(2), of opts ev f] diff by (auto simp: reg(3))
  have stays: "?A \<in> set (listeners (snd (off opts ev (Fn f) st1)) ev)"
    using off_function(2) [OF reg(2), of opts ev f ev] diff by (simp add: reg(3))
  have untouched: "off opts ev (Fn f) st1 = (Inr False, trace opts ''off'' (Subscription ev f) st1)"
    if "f \<notin> set (listeners st ev)"
  proof -
    let ?t = "trace opts ''off'' (Subscription ev f) st1"
    have "f \<notin> set (listeners ?t ev)"
      using that diff by (auto simp: reg(3))
    moreover have "registry_ok ?t" using reg(2) by simp
    ultimately have "remove ev f ?t = (False, ?t)" by (intro remove_absent)
    then show ?thesis by (simp add: off_def functionTypeGuard_def)
  qed
  have unsub: "\<exists>st2. unsubscribe ?h st1 = (True, st2) \<and> listeners st2 ev = listeners st ev"
    using handle(1,2) by (cases "unsubscribe ?h st1") auto
  have fires: "\<exists>r' st3. invoke (Suc (Suc n)) opts ?A args st1 = Some (r', st3)
             \<and> listeners st3 ev = listeners st ev \<and> calls st3 = calls st1 @ [(f, args)]"
    if "inert f"
    using invoke_inert [OF that, of n opts args "snd (unsubscribe ?h st1)"] handle(2,3) reg(5)
    by (auto split: option.splits sum.splits)
  show ?thesis
  proof (intro conjI impI)
    show "r = Inr ?h" by (rule reg(1))
    show "listeners st1 ev = listeners st ev @ [?A]" by (rule reg(3))
    show "fst (off opts ev (Fn f) st1) = Inr (f \<in> set (listeners st ev))" by (rule answer)
    show "?A \<in> set (listeners (snd (off opts ev (Fn f) st1)) ev)" by (rule stays)
    show "off opts ev (Fn f) st1 = (Inr False, trace opts ''off'' (Subscription ev f) st1)"
      if "f \<notin> set (listeners st ev)"
      using that untouched by simp
    show "\<exists>st2. unsubscribe ?h st1 = (True, st2) \<and> listeners st2 ev = listeners st ev"
      by (rule unsub)
    show "\<exists>r' st3. invoke (Suc (Suc n)) opts ?A args st1 = Some (r', st3)
             \<and> listeners st3 ev = listeners st ev \<and> calls st3 = calls st1 @ [(f, args)]"
      if "inert f"
      using that fires by simp
  qed
qed

theorem off_after_once_witness:
  "\<exists>st1.
      once \<lparr> strict = False, object = 0 \<rparr> ''e'' (Fn (User 11 [] (Return Plain))) initial
        = (Inr 0, st1)
    \<and> listeners st1 ''e'' = [Adapter 0 (User 11 [] (Return Plain))]
    \<and> off \<lparr> strict = False, object = 0 \<rparr> ''e'' (Fn (User 11 [] (Return Plain))) st1
        = (Inr False,
           trace \<lparr> strict = False, object = 0 \<rparr> ''off''
             (Subscription ''e'' (User 11 [] (Return Plain))) st1)
    \<and> (\<exists>st2. unsubscribe 0 st1 = (True, st2) \<and> listeners st2 ''e'' = [])
    \<and> (\<exists>r' st3. invoke 2 \<lparr> strict = False, object = 0 \<rparr>
                    (Adapter 0 (User 11 [] (Return Plain))) [Num 5] st1 = Some (r', st3)
          \<and> listeners st3 ''e'' = []
          \<and> calls st3 = [(User 11 [] (Return Plain), [Num 5])])"
proof -
  let ?opts = "\<lparr> strict = False, object = 0 \<rparr>"
  let ?f = "User 11 [] (Return Plain)"
  define st1 where "st1 = snd (once ?opts ''e'' (Fn ?f) initial)"
  have h0: "length (handles initial) = 0" and l0: "listeners initial ''e'' = []"
    and c1: "calls st1 = []"
    by (simp_all add: st1_def listeners_def run_simps)
  have fresh: "Adapter (length (handles initial)) ?f \<notin> set (listeners initial ''e'')"
    by (simp add: l0)
  have sub: "once ?opts ''e'' (Fn ?f) initial = (Inr 0, st1)"
    by (simp add: st1_def once_function on_function initial_def)
  note all = off_after_once [OF registry_ok_initial fresh sub, of 0 "[Num 5]", unfolded h0 l0]
  note tail4 = all [THEN conjunct2, THEN conjunct2, THEN conjunct2, THEN conjunct2]
  show ?thesis
  proof (rule exI [of _ st1], intro conjI)
    show "once ?opts ''e'' (Fn ?f) initial = (Inr 0, st1)" by (rule sub)
    show "listeners st1 ''e'' = [Adapter 0 ?f]"
      using all [THEN conjunct2, THEN conjunct1] by simp
    show "off ?opts ''e'' (Fn ?f) st1
        = (Inr False, trace ?opts ''off'' (Subscription ''e'' ?f) st1)"
      using tail4 [THEN conjunct1] by simp
    show "\<exists>st2. unsubscribe 0 st1 = (True, st2) \<and> listeners st2 ''e'' = []"
      by (rule tail4 [THEN conjunct2, THEN conjunct1])
    show "\<exists>r' st3. invoke 2 ?opts (Adapter 0 ?f) [Num 5] st1 = Some (r', st3)
          \<and> listeners st3 ''e'' = [] \<and> calls st3 = [(?f, [Num 5])]"
      using tail4 [THEN conjunct2, THEN conjunct2] by (simp add: c1 eval_nat_numeral)
  qed
qed

lemma errors_remove [simp]: "errors (snd (remove ev l st)) = errors st"
  by (simp add: remove_def Let_def split: option.splits)

lemma length_sets_remove [simp]:
  "length (sets (snd (remove ev l st)) b) = length (sets st b)"
  by (simp add: remove_def Let_def set_delete_def split: option.splits)

lemma unsubscribe_listeners:
  assumes ok: "registry_ok x" and h: "h < length (handles x)"
    and entry: "handles x ! h = (True, ev, l)"
  shows "listeners (snd (unsubscribe h x)) ev = removeAll l (listeners x ev)"
    and "calls (snd (unsubscribe h x)) = calls x"
    and "errors (snd (unsubscribe h x)) = errors x"
    and "length (sets (snd (unsubscribe h x)) b) = length (sets x b)"
proof -
  let ?x' = "x\<lparr> handles := (handles x)[h := (False, ev, l)] \<rparr>"
  have call: "unsubscribe h x = remove ev l ?x'"
    using h entry by (rule unsubscribe_active)
  have ok': "registry_ok ?x'" using ok by simp
  show "listeners (snd (unsubscribe h x)) ev = removeAll l (listeners x ev)"
    using listeners_remove [OF ok', of ev l ev] by (simp add: call)
  show "calls (snd (unsubscribe h x)) = calls x"
    and "errors (snd (unsubscribe h x)) = errors x"
    and "length (sets (snd (unsubscribe h x)) b) = length (sets x b)"
    by (simp_all add: call)
qed

lemma emit_loop_prefix:
  assumes "\<forall>l \<in> set (set_values (take k (drop i (sets x a)))).
             inert l \<and> (strict opts \<longrightarrow> throwing l = None)"
    and "i + k \<le> length (sets x a)"
  shows "emit_loop (Suc m + k) opts ev args a i x =
           emit_loop (Suc m) opts ev args a (i + k)
             (x\<lparr> calls := calls x @
                   map (\<lambda>l. (l, args)) (set_values (take k (drop i (sets x a)))),
                 errors := errors x @
                   reports (object opts) ev (set_values (take k (drop i (sets x a)))) \<rparr>)"
  using assms
proof (induction k arbitrary: i x)
  case 0
  then show ?case by simp
next
  case (Suc k)
  let ?s = "sets x a"
  from Suc.prems(2) have i: "i < length ?s" and rest: "Suc i + k \<le> length ?s"
    by simp_all
  have split: "take (Suc k) (drop i ?s) = ?s ! i # take k (drop (Suc i) ?s)"
    using i by (simp add: take_Suc_conv_app_nth flip: Cons_nth_drop_Suc)
  define N where "N = Suc m + k"
  have fuel: "Suc m + Suc k = Suc N" by (simp add: N_def)
  show ?case
  proof (cases "?s ! i")
    case None
    then have vals: "set_values (take (Suc k) (drop i ?s)) = set_values (take k (drop (Suc i) ?s))"
      by (simp add: split set_values_def List.map_filter_simps)
    have "emit_loop (Suc N) opts ev args a i x = emit_loop N opts ev args a (Suc i) x"
      using i None by simp
    then show ?thesis
      unfolding fuel using Suc.IH [of "Suc i" x] Suc.prems(1) rest vals
      by (simp add: N_def)
  next
    case (Some l)
    then have vals:
      "set_values (take (Suc k) (drop i ?s)) = l # set_values (take k (drop (Suc i) ?s))"
      by (simp add: split set_values_def List.map_filter_simps)
    have inert: "inert l" and quiet: "strict opts \<longrightarrow> throwing l = None"
      using Suc.prems(1) vals by simp_all
    let ?x1 = "x\<lparr> calls := calls x @ [(l, args)] \<rparr>"
    have inv: "invoke N opts l args x =
           Some (case throwing l of None \<Rightarrow> Inr (case l of User _ _ (Return r) \<Rightarrow> r | _ \<Rightarrow> Plain)
                 | Some err \<Rightarrow> Inl err, ?x1)"
      using invoke_inert [OF inert, of "m + k" opts args x] by (simp add: N_def)
    have others: "\<forall>l \<in> set (set_values (take k (drop (Suc i) ?s))).
             inert l \<and> (strict opts \<longrightarrow> throwing l = None)"
      using Suc.prems(1) vals by simp
    show ?thesis
    proof (cases "throwing l")
      case None
      have "emit_loop (Suc N) opts ev args a i x = emit_loop N opts ev args a (Suc i) ?x1"
        using i Some None inv by simp
      then show ?thesis
        unfolding fuel using Suc.IH [of "Suc i" ?x1] others rest vals None
        by (simp add: N_def)
    next
      case thrown: (Some err)
      with quiet have lax: "\<not> strict opts" by simp
      let ?x2 = "error err (ErrorContext (object opts) ev l) ?x1"
      have "emit_loop (Suc N) opts ev args a i x = emit_loop N opts ev args a (Suc i) ?x2"
        using i Some thrown inv lax by simp
      then show ?thesis
        unfolding fuel using Suc.IH [of "Suc i" ?x2] others rest vals thrown
        by (simp add: N_def error_def)
    qed
  qed
qed

lemma once_entries:
  assumes ok: "registry_ok st"
    and fresh: "Adapter (length (handles st)) f \<notin> set (listeners st ev)"
    and sub: "once opts ev (Fn f) st = (r, st1)"
  shows "sets st1 (getListeners st1 ev) =
           sets st (getListeners st ev) @ [Some (Adapter (length (handles st)) f)]"
    and "errors st1 = errors st"
proof -
  let ?A = "Adapter (length (handles st)) f"
  from sub have st1: "st1 = snd (on opts ev (Fn ?A) st)"
    by (auto simp: once_function)
  show "errors st1 = errors st"
    by (simp add: st1 on_function add_def trace_def split: option.splits)
  show "sets st1 (getListeners st1 ev) = sets st (getListeners st ev) @ [Some ?A]"
  proof (cases "map_tbl st ev")
    case None
    moreover have "sets st emptySet = []" using ok by (simp add: registry_ok_def)
    ultimately show ?thesis
      by (simp add: st1 on_function add_def trace_def getListeners_def set_add_def)
  next
    case (Some a)
    with fresh have "Some ?A \<notin> set (sets st a)"
      by (simp add: listeners_def getListeners_def set_values_mem)
    with Some show ?thesis
      by (simp add: st1 on_function add_def trace_def getListeners_def set_add_def)
  qed
qed

lemma fields_trace [simp]:
  "calls (trace opts name p st) = calls st"
  "errors (trace opts name p st) = errors st"
  "sets (trace opts name p st) = sets st"
  by (simp_all add: trace_def)

lemma registry_ok_errors [simp]: "registry_ok (st\<lparr> errors := es \<rparr>) = registry_ok st"
  by (rule registry_ok_fields) simp_all

lemma listeners_errors [simp]: "listeners (st\<lparr> errors := es \<rparr>) = listeners st"
  by (rule listeners_fields) simp_all

text \<open>
  Claim C10. Let \<open>f\<close> throw \<open>err\<close>, subscribed with \<^verbatim>\<open>once\<close> to an event whose other
  listeners do not call back (and do not throw, if \<open>strict\<close> is on, so that the emission
  reaches \<open>f\<close>). Invoking the adapter throws \<open>err\<close> in a state where the registration is
  gone already. So \<^verbatim>\<open>emit\<close> invokes the other listeners and then \<open>f\<close>, tells the error
  hook \<open>err\<close> with the adapter as the listener of the context, and throws \<open>err\<close> if
  \<open>strict\<close> is on and returns otherwise; in both cases the listeners of the event are
  those from before \<^verbatim>\<open>once\<close>, and every later emission invokes these only.
\<close>

theorem once_listener_throwing:
  assumes ok: "registry_ok st"
    and fresh: "Adapter (length (handles st)) (User tag [] (Throws err)) \<notin> set (listeners st ev)"
    and others: "\<forall>l \<in> set (listeners st ev). inert l \<and> (strict opts \<longrightarrow> throwing l = None)"
    and sub: "once opts ev (Fn (User tag [] (Throws err))) st = (r, st1)"
  shows "(\<exists>s. invoke (Suc (Suc k)) opts (Adapter (length (handles st)) (User tag [] (Throws err)))
                 args st1 = Some (Inl err, s)
            \<and> listeners s ev = listeners st ev)
    \<and> (\<exists>st2. emit (length (sets st (getListeners st ev)) + 3 + n) opts ev args st1
                 = Some (if strict opts then Inl err else Inr (), st2)
           \<and> calls st2 = calls st @ map (\<lambda>l. (l, args)) (listeners st ev)
                            @ [(User tag [] (Throws err), args)]
           \<and> errors st2 = errors st @ reports (object opts) ev (listeners st ev) @
                 [(err, ErrorContext (object opts) ev
                          (Adapter (length (handles st)) (User tag [] (Throws err))))]
           \<and> listeners st2 ev = listeners st ev
           \<and> (\<forall>m args'. length (sets st2 (getListeners st2 ev)) < m \<longrightarrow>
                 (\<exists>r' st3. emit m opts ev args' st2 = Some (r', st3)
                    \<and> calls st3 = calls st2 @
                         map (\<lambda>l. (l, args')) (deliveries (strict opts) (listeners st ev)))))"
proof -
  let ?h = "length (handles st)"
  let ?f = "User tag [] (Throws err)"
  let ?A = "Adapter ?h ?f"
  let ?ls = "listeners st ev"
  let ?pre = "sets st (getListeners st ev)"
  note reg = once_registered [OF ok fresh sub]
  note handle = once_handle [OF ok fresh sub]
  note ent = once_entries [OF ok fresh sub]
  have pre: "set_values ?pre = ?ls" by (simp add: listeners_def)
  have inv: "invoke (Suc (Suc j)) opts ?A args x =
      Some (Inl err, (snd (unsubscribe ?h x))
                       \<lparr> calls := calls (snd (unsubscribe ?h x)) @ [(?f, args)] \<rparr>)" for j x
    by simp
  have part1: "\<exists>s. invoke (Suc (Suc k)) opts ?A args st1 = Some (Inl err, s)
            \<and> listeners s ev = ?ls"
    using inv [of k st1] handle(2) by simp
  \<comment> \<open>the emission: the listeners subscribed before, then the adapter\<close>
  define a where "a = getListeners st1 ev"
  define t1 where "t1 = trace opts ''emit'' (Emission (listeners st1 ev) ev args) st1"
  define x2 where "x2 = t1\<lparr> calls := calls t1 @ map (\<lambda>l. (l, args)) ?ls,
                            errors := errors t1 @ reports (object opts) ev ?ls \<rparr>"
  define s where "s = (snd (unsubscribe ?h x2))
                        \<lparr> calls := calls (snd (unsubscribe ?h x2)) @ [(?f, args)] \<rparr>"
  define st2 where "st2 = error err (ErrorContext (object opts) ev ?A) s"
  have sets_t1: "sets t1 a = ?pre @ [Some ?A]"
    by (simp add: t1_def a_def ent(1))
  have sets_x2: "sets x2 a = ?pre @ [Some ?A]"
    by (simp add: x2_def sets_t1)
  have start: "emit (length ?pre + 3 + n) opts ev args st1
                 = emit_loop (length ?pre + 3 + n) opts ev args a 0 t1"
    unfolding a_def t1_def by (rule emit_present) (simp add: reg(3))
  have "emit_loop (Suc (Suc (Suc n)) + length ?pre) opts ev args a 0 t1
          = emit_loop (Suc (Suc (Suc n))) opts ev args a (0 + length ?pre)
              (t1\<lparr> calls := calls t1 @
                     map (\<lambda>l. (l, args)) (set_values (take (length ?pre) (drop 0 (sets t1 a)))),
                   errors := errors t1 @
                     reports (object opts) ev
                       (set_values (take (length ?pre) (drop 0 (sets t1 a)))) \<rparr>)"
    by (rule emit_loop_prefix) (simp_all add: sets_t1 pre others)
  then have prefix: "emit_loop (length ?pre + 3 + n) opts ev args a 0 t1
          = emit_loop (Suc (Suc (Suc n))) opts ev args a (length ?pre) x2"
    by (simp add: sets_t1 pre x2_def add.commute eval_nat_numeral)
  have ok_x2: "registry_ok x2" and ls_x2: "listeners x2 ev = ?ls @ [?A]"
    and h_x2: "handles x2 = handles st @ [(True, ev, ?A)]"
    and c_x2: "calls x2 = calls st @ map (\<lambda>l. (l, args)) ?ls"
    and e_x2: "errors x2 = errors st @ reports (object opts) ev ?ls"
    using reg(2) by (simp_all add: x2_def t1_def reg(3,4,5) ent(2))
  note unsub = unsubscribe_listeners [OF ok_x2, of ?h ev ?A, unfolded h_x2, simplified]
  have ls_s: "listeners s ev = ?ls"
    using unsub(1) fresh by (simp add: s_def ls_x2)
  have ok2: "registry_ok st2"
    using registry_ok_unsubscribe [OF ok_x2, of ?h] by (simp add: st2_def s_def)
  have ls2: "listeners st2 ev = ?ls"
    by (simp add: st2_def ls_s)
  have c2: "calls st2 = calls st @ map (\<lambda>l. (l, args)) ?ls @ [(?f, args)]"
    by (simp add: st2_def s_def error_def unsub(2) c_x2)
  have e2: "errors st2 = errors st @ reports (object opts) ev ?ls @
                 [(err, ErrorContext (object opts) ev ?A)]"
    by (simp add: st2_def s_def error_def unsub(3) e_x2)
  have len2: "length (sets st2 a) = Suc (length ?pre)"
    by (simp add: st2_def s_def error_def unsub(4) sets_x2)
  have finish: "emit_loop (Suc (Suc n)) opts ev args a (Suc (length ?pre)) st2 = Some (Inr (), st2)"
    by (simp add: len2)
  have invA: "invoke (Suc (Suc n)) opts ?A args x2 = Some (Inl err, s)"
    unfolding s_def by (rule inv)
  have "emit_loop (Suc (Suc (Suc n))) opts ev args a (length ?pre) x2
          = (if strict opts then Some (Inl err, st2)
             else emit_loop (Suc (Suc n)) opts ev args a (Suc (length ?pre)) st2)"
    by (subst emit_loop.simps(2))
       (simp add: sets_x2 invA st2_def del: invoke.simps emit_loop.simps)
  then have step: "emit_loop (Suc (Suc (Suc n))) opts ev args a (length ?pre) x2
                 = Some (if strict opts then Inl err else Inr (), st2)"
    by (simp add: finish del: emit_loop.simps)
  have run: "emit (length ?pre + 3 + n) opts ev args st1
                 = Some (if strict opts then Inl err else Inr (), st2)"
    by (simp only: start prefix step)
  have later: "\<exists>r' st3. emit m opts ev args' st2 = Some (r', st3)
                    \<and> calls st3 = calls st2 @
                         map (\<lambda>l. (l, args')) (deliveries (strict opts) ?ls)"
    if fuel: "length (sets st2 (getListeners st2 ev)) < m" for m args'
  proof (cases "?ls = []")
    case True
    then have "map_tbl st2 ev = None"
      using listeners_entry [OF ok2, of ev] ls2 by simp
    moreover have "sets st2 emptySet = []"
      using ok2 by (simp add: registry_ok_def)
    ultimately show ?thesis
      using emit_absent(1) [of st2 ev m opts args'] True by simp
  next
    case False
    then have "listeners st2 ev \<noteq> []" by (simp add: ls2)
    moreover have "\<forall>l \<in> set (listeners st2 ev). inert l"
      using others by (simp add: ls2)
    ultimately show ?thesis
      using emit_inert_calls [of st2 ev m opts args'] fuel by (simp add: ls2)
  qed
  show ?thesis
  proof (intro conjI)
    show "\<exists>s. invoke (Suc (Suc k)) opts ?A args st1 = Some (Inl err, s)
            \<and> listeners s ev = ?ls"
      by (rule part1)
    show "\<exists>st2. emit (length ?pre + 3 + n) opts ev args st1
                 = Some (if strict opts then Inl err else Inr (), st2)
           \<and> calls st2 = calls st @ map (\<lambda>l. (l, args)) ?ls @ [(?f, args)]
           \<and> errors st2 = errors st @ reports (object opts) ev ?ls @
                 [(err, ErrorContext (object opts) ev ?A)]
           \<and> listeners st2 ev = ?ls
           \<and> (\<forall>m args'. length (sets st2 (getListeners st2 ev)) < m \<longrightarrow>
                 (\<exists>r' st3. emit m opts ev args' st2 = Some (r', st3)
                    \<and> calls st3 = calls st2 @
                         map (\<lambda>l. (l, args')) (deliveries (strict opts) ?ls)))"
      using run c2 e2 ls2 later by blast
  qed
qed

theorem once_listener_throwing_witness:
  "\<exists>st1 st2 r' st3.
      once \<lparr> strict = True, object = 0 \<rparr> ''e'' (Fn (User 11 [] (Throws (Error ''boom''))))
        (snd (on \<lparr> strict = True, object = 0 \<rparr> ''e'' (Fn (User 12 [] (Return Plain))) initial))
        = (Inr 1, st1)
    \<and> emit 4 \<lparr> strict = True, object = 0 \<rparr> ''e'' [Num 5] st1
        = Some (Inl (Error ''boom''), st2)
    \<and> calls st2 = [(User 12 [] (Return Plain), [Num 5]),
                    (User 11 [] (Throws (Error ''boom'')), [Num 5])]
    \<and> errors st2 =
        [(Error ''boom'', ErrorContext 0 ''e'' (Adapter 1 (User 11 [] (Throws (Error ''boom'')))))]
    \<and> listeners st2 ''e'' = [User 12 [] (Return Plain)]
    \<and> emit 3 \<lparr> strict = True, object = 0 \<rparr> ''e'' [Num 6] st2 = Some (r', st3)
    \<and> calls st3 = calls st2 @ [(User 12 [] (Return Plain), [Num 6])]"
proof -
  let ?opts = "\<lparr> strict = True, object = 0 \<rparr>"
  let ?f = "User 11 [] (Throws (Error ''boom''))"
  let ?l = "User 12 [] (Return Plain)"
  define st0 where "st0 = snd (on ?opts ''e'' (Fn ?l) initial)"
  define st1 where "st1 = snd (once ?opts ''e'' (Fn ?f) st0)"
  define st2 where "st2 = snd (the (emit 4 ?opts ''e'' [Num 5] st1))"
  have h0: "length (handles st0) = 1" and l0: "listeners st0 ''e'' = [?l]"
    and c0: "calls st0 = []" and e0: "errors st0 = []"
    and p0: "length (sets st0 (getListeners st0 ''e'')) = 1"
    by (simp_all add: st0_def listeners_def run_simps)
  have p2: "length (sets st2 (getListeners st2 ''e'')) < 3"
    by (simp add: st2_def st1_def st0_def run_simps)
  have ok0: "registry_ok st0"
    unfolding st0_def by (rule registry_ok_on) (rule registry_ok_initial)
  have fresh: "Adapter (length (handles st0)) ?f \<notin> set (listeners st0 ''e'')"
    by (simp add: l0)
  have others: "\<forall>l \<in> set (listeners st0 ''e''). inert l \<and> (strict ?opts \<longrightarrow> throwing l = None)"
    by (simp add: l0)
  have sub: "once ?opts ''e'' (Fn ?f) st0 = (Inr 1, st1)"
    using h0 by (simp add: st1_def once_function on_function)
  note all = once_listener_throwing [OF ok0 fresh others sub, of 0 "[Num 5]" 0,
      unfolded h0 l0 c0 e0 p0]
  from all [THEN conjunct2] obtain x where
    run: "emit (1 + 3 + 0) ?opts ''e'' [Num 5] st1
            = Some (if strict ?opts then Inl (Error ''boom'') else Inr (), x)"
    and c2: "calls x = [] @ map (\<lambda>l. (l, [Num 5])) [?l] @ [(?f, [Num 5])]"
    and e2: "errors x = [] @ reports (object ?opts) ''e'' [?l] @
               [(Error ''boom'', ErrorContext (object ?opts) ''e'' (Adapter 1 ?f))]"
    and ls2: "listeners x ''e'' = [?l]"
    and later: "\<And>m args'. length (sets x (getListeners x ''e'')) < m \<Longrightarrow>
                 \<exists>r' st3. emit m ?opts ''e'' args' x = Some (r', st3)
                    \<and> calls st3 = calls x @
                         map (\<lambda>l. (l, args')) (deliveries (strict ?opts) [?l])"
    by blast
  from run have run4: "emit 4 ?opts ''e'' [Num 5] st1 = Some (Inl (Error ''boom''), x)"
    by simp
  then have x: "x = st2" by (simp add: st2_def)
  from later [of 3 "[Num 6]"] p2 obtain r' st3 where
    again: "emit 3 ?opts ''e'' [Num 6] st2 = Some (r', st3)"
    and c3: "calls st3 = calls st2 @ map (\<lambda>l. (l, [Num 6])) (deliveries (strict ?opts) [?l])"
    unfolding x by blast
  show ?thesis
  proof (rule exI [of _ st1], rule exI [of _ st2], rule exI [of _ r'], rule exI [of _ st3],
         intro conjI)
    show "once ?opts ''e'' (Fn ?f) (snd (on ?opts ''e'' (Fn ?l) initial)) = (Inr 1, st1)"
      using sub by (simp add: st0_def)
    show "emit 4 ?opts ''e'' [Num 5] st1 = Some (Inl (Error ''boom''), st2)"
      using run4 by (simp add: x)
    show "calls st2 = [(?l, [Num 5]), (?f, [Num 5])]"
      using c2 by (simp add: x)
    show "errors st2 = [(Error ''boom'', ErrorContext 0 ''e'' (Adapter 1 ?f))]"
      using e2 by (simp add: x)
    show "listeners st2 ''e'' = [?l]"
      using ls2 by (simp add: x)
    show "emit 3 ?opts ''e'' [Num 6] st2 = Some (r', st3)" by (rule again)
    show "calls st3 = calls st2 @ [(?l, [Num 6])]"
      using c3 by simp
  qed
qed

subsection \<open>Listeners subscribed once\<close>

text \<open>
  Two listeners are subscribed with \<^verbatim>\<open>once\<close> to one event, and the first emits the event
  again. Under the synchronous \<^verbatim>\<open>emit\<close>, whose loop reads the set as it is, the second
  listener is invoked once: the outer loop finds its adapter deleted.
\<close>

lemma once_listener_sync_emit:
  "map_option calls
     (client 8 \<lparr> strict = False, object = 0 \<rparr>
        [DoOnce ''e'' (Fn (User 1 [DoEmit ''e'' []] (Return Plain))),
         DoOnce ''e'' (Fn (User 0 [] (Return Plain))),
         DoEmit ''e'' []]
        initial)
   = Some [(User 1 [DoEmit ''e'' []] (Return Plain), []),
           (User 0 [] (Return Plain), [])]"
  by (simp add: run_simps)

text \<open>
  Claim C7. A listener subscribed with \<^verbatim>\<open>once\<close> should be invoked at most once. Two
  listeners are subscribed with \<^verbatim>\<open>once\<close> to the same event, the first of which emits the
  event again with \<^verbatim>\<open>emitAsync\<close>. One \<^verbatim>\<open>emitAsync\<close> then invokes the second listener twice:
  the inner emission invokes and unsubscribes its adapter, and the outer emission still
  holds the adapter in its copy of the set, where the adapter ignores that its handle
  answers false.
\<close>

theorem once_listener_fires_twice:
  "map_option calls
     (client 6 \<lparr> strict = False, object = 0 \<rparr>
        [DoOnce ''e'' (Fn (User 1 [DoEmitAsync ''e'' []] (Return Plain))),
         DoOnce ''e'' (Fn (User 0 [] (Return Plain))),
         DoEmitAsync ''e'' []]
        initial)
   = Some [(User 1 [DoEmitAsync ''e'' []] (Return Plain), []),
           (User 0 [] (Return Plain), []),
           (User 0 [] (Return Plain), [])]"
  by (simp add: run_simps)

end
